theory Spec2Isabelle
  imports Complex_Main "HOL-Library.Multiset" "HOL-Library.Log_Nat"
begin

section \<open>Python values and exceptions\<close>

text \<open>
  Every exception the modelled code can raise is a constructor of \<open>error\<close>; a function that
  can raise returns \<open>error + 'a\<close> with \<open>Inl\<close> for the exception.
\<close>

datatype error =
    OverflowError
  | ZeroDivisionError
  | TypeError
  | AssertionError
  | ValueError
  | TypeCheckError
  | NotImplementedError
  | KeyError
  | AttributeError
  | IndexError

text \<open>
  Numbers returned by counters and combiners. Python's unbounded integers (\<open>int\<close> and
  \<open>long\<close>) are \<open>int\<close>. A Python float is an IEEE 754 double: a finite value, given by
  the rational number it denotes, an infinity, or not-a-number. The sign of a zero is not
  represented, and equality of \<open>NaN\<close> is identity of the value, not Python's \<open>==\<close>.
\<close>

datatype double = Finite rat | PosInf | NegInf | NaN

datatype number = PyInt int | PyFloat double

text \<open>
  Rounding to the nearest double. \<open>floor_log2 a\<close> is the binary exponent of a positive
  rational, computed from the bit lengths of its numerator and denominator.
  \<open>round_half_even\<close> rounds to the nearest integer, ties to the even one. A double has a
  significand of 53 bits and an exponent of at least \<open>-1022\<close>, so the doubles next to a
  positive \<open>a\<close> are spaced by \<open>2 powi (max (floor_log2 a) (- 1022) - 52)\<close>; a value that rounds
  to \<open>2 ^ 1024\<close> or more is out of range and becomes an infinity.
\<close>

definition floor_log2 :: "rat \<Rightarrow> int" where
  "floor_log2 a =
     (case quotient_of a of
        (p, d) \<Rightarrow> (let e0 = bitlen p - bitlen d in if 2 powi e0 \<le> a then e0 else e0 - 1))"

definition round_half_even :: "rat \<Rightarrow> int" where
  "round_half_even m =
     (let f = \<lfloor>m\<rfloor>; r = m - of_int f
      in if r < 1 / 2 then f else if 1 / 2 < r then f + 1 else if even f then f else f + 1)"

definition nearest_double :: "rat \<Rightarrow> rat" where
  "nearest_double a =
     (let e = floor_log2 a; t = max e (- 1022) - 52
      in of_int (round_half_even (a / 2 powi t)) * 2 powi t)"

definition round_double :: "rat \<Rightarrow> double" where
  "round_double q =
     (if q = 0 then Finite 0
      else (let r = nearest_double \<bar>q\<bar>
            in if 2 ^ 1024 \<le> r then (if 0 < q then PosInf else NegInf)
               else Finite (sgn q * r)))"

text \<open>
  \<open>float(i)\<close> for an integer \<open>i\<close>: the nearest double, or \<open>OverflowError\<close> when \<open>i\<close> is
  too large to convert. The same conversion is applied to an integer operand of an
  arithmetic operation whose other operand is a float.
\<close>

definition double_of_int :: "int \<Rightarrow> error + double" where
  "double_of_int i =
     (case round_double (of_int i) of
        Finite r \<Rightarrow> Inr (Finite r)
      | _ \<Rightarrow> Inl OverflowError)"

definition to_double :: "number \<Rightarrow> error + double" where
  "to_double x = (case x of PyInt i \<Rightarrow> double_of_int i | PyFloat d \<Rightarrow> Inr d)"

text \<open>Addition and division of doubles; a float division by zero raises in Python.\<close>

fun double_add :: "double \<Rightarrow> double \<Rightarrow> double" where
  "double_add NaN y = NaN"
| "double_add x NaN = NaN"
| "double_add PosInf NegInf = NaN"
| "double_add NegInf PosInf = NaN"
| "double_add PosInf y = PosInf"
| "double_add x PosInf = PosInf"
| "double_add NegInf y = NegInf"
| "double_add x NegInf = NegInf"
| "double_add (Finite a) (Finite b) = round_double (a + b)"

fun double_div :: "double \<Rightarrow> double \<Rightarrow> error + double" where
  "double_div x (Finite b) =
     (if b = 0 then Inl ZeroDivisionError
      else (case x of
              Finite a \<Rightarrow> Inr (round_double (a / b))
            | PosInf \<Rightarrow> Inr (if 0 < b then PosInf else NegInf)
            | NegInf \<Rightarrow> Inr (if 0 < b then NegInf else PosInf)
            | NaN \<Rightarrow> Inr NaN))"
| "double_div (Finite a) y = (case y of NaN \<Rightarrow> Inr NaN | _ \<Rightarrow> Inr (Finite 0))"
| "double_div x y = Inr NaN"

text \<open>
  The operators \<open>+\<close> and \<open>/\<close> on numbers. Two integers are added exactly and divided with
  floor division (the modules do not import \<open>division\<close> from \<open>__future__\<close>); otherwise
  both operands are converted to doubles. \<open>py_sum start xs\<close> is the builtin \<open>sum\<close>, which
  adds the items to \<open>start\<close> from left to right.
\<close>

definition py_add :: "number \<Rightarrow> number \<Rightarrow> error + number" where
  "py_add x y =
     (case (x, y) of
        (PyInt a, PyInt b) \<Rightarrow> Inr (PyInt (a + b))
      | _ \<Rightarrow>
          (case to_double x of
             Inl e \<Rightarrow> Inl e
           | Inr dx \<Rightarrow>
               (case to_double y of
                  Inl e \<Rightarrow> Inl e
                | Inr dy \<Rightarrow> Inr (PyFloat (double_add dx dy)))))"

definition py_div :: "number \<Rightarrow> number \<Rightarrow> error + number" where
  "py_div x y =
     (case (x, y) of
        (PyInt a, PyInt b) \<Rightarrow> if b = 0 then Inl ZeroDivisionError else Inr (PyInt (a div b))
      | _ \<Rightarrow>
          (case to_double x of
             Inl e \<Rightarrow> Inl e
           | Inr dx \<Rightarrow>
               (case to_double y of
                  Inl e \<Rightarrow> Inl e
                | Inr dy \<Rightarrow>
                    (case double_div dx dy of
                       Inl e \<Rightarrow> Inl e
                     | Inr q \<Rightarrow> Inr (PyFloat q)))))"

fun py_sum :: "number \<Rightarrow> number list \<Rightarrow> error + number" where
  "py_sum start [] = Inr start"
| "py_sum start (x # xs) =
     (case py_add start x of
        Inl e \<Rightarrow> Inl e
      | Inr s \<Rightarrow> py_sum s xs)"

section \<open>Counters (utils/counters.py)\<close>

subsection \<open>Counter\<close>

text \<open>The aggregation kinds are the integer class attributes of \<open>Counter\<close>.\<close>

definition Counter_SUM :: int where "Counter_SUM = 1"
definition Counter_MAX :: int where "Counter_MAX = 2"
definition Counter_MIN :: int where "Counter_MIN = 3"
definition Counter_MEAN :: int where "Counter_MEAN = 4"
definition Counter_AND :: int where "Counter_AND = 5"
definition Counter_OR :: int where "Counter_OR = 6"

datatype counter_class = Counter_cls | AggregatorCounter_cls

record counter =
  cls :: counter_class
  name :: string
  aggregation_kind :: int
  c_total :: int
  py_total :: int
  elements :: int

text \<open>\<open>Counter.__init__\<close>: the assertion admits only SUM and MEAN.\<close>

definition Counter_init :: "counter_class \<Rightarrow> string \<Rightarrow> int \<Rightarrow> error + counter" where
  "Counter_init k nm kind =
     (if kind = Counter_SUM \<or> kind = Counter_MEAN
      then Inr \<lparr>cls = k, name = nm, aggregation_kind = kind,
                c_total = 0, py_total = 0, elements = 0\<rparr>
      else Inl AssertionError)"

text \<open>
  \<open>Counter._update_small\<close>. The module is compiled with \<open>overflowcheck=True\<close>; the
  declaration file that gives \<open>c_total\<close> and \<open>delta\<close> their bounded C integer type is not
  among the sources, so the set of representable values is the parameter \<open>fits\<close>
  (for a signed 64-bit integer, \<open>fits_int64\<close> below; for the uncompiled module, always true).
  An overflowing conversion of the argument or an overflowing addition raises
  \<open>OverflowError\<close> and leaves the counter unchanged.
\<close>

definition fits_int64 :: "int \<Rightarrow> bool" where
  "fits_int64 i = (- (2 ^ 63) \<le> i \<and> i < 2 ^ 63)"

definition Counter_update_small :: "(int \<Rightarrow> bool) \<Rightarrow> counter \<Rightarrow> int \<Rightarrow> error + counter" where
  "Counter_update_small fits c delta =
     (if fits delta
      then (let new_total = c_total c + delta
            in if fits new_total then Inr (c\<lparr>c_total := new_total\<rparr>) else Inl OverflowError)
      else Inl OverflowError)"

text \<open>\<open>Counter.update\<close>: only \<open>OverflowError\<close> is caught; the element count is
  incremented afterwards on both paths.\<close>

definition Counter_update :: "(int \<Rightarrow> bool) \<Rightarrow> counter \<Rightarrow> int \<Rightarrow> error + counter" where
  "Counter_update fits c cnt =
     (case Counter_update_small fits c cnt of
        Inr c1 \<Rightarrow> Inr (c1\<lparr>elements := elements c1 + 1\<rparr>)
      | Inl e \<Rightarrow>
          if e = OverflowError
          then (let c1 = c\<lparr>py_total := py_total c + cnt\<rparr>
                in Inr (c1\<lparr>elements := elements c1 + 1\<rparr>))
          else Inl e)"

text \<open>The property \<open>Counter.total\<close>.\<close>

definition Counter_total :: "counter \<Rightarrow> int" where
  "Counter_total c = c_total c + py_total c"

text \<open>
  \<open>Counter.value\<close>. In the MEAN branch \<open>float(self.total)\<close> is evaluated first and raises
  \<open>OverflowError\<close> when the total is too large for a double; the division of that float by
  the integer \<open>self.elements\<close> converts the count to a double and raises
  \<open>ZeroDivisionError\<close> when it is zero.
\<close>

definition Counter_value :: "counter \<Rightarrow> error + number" where
  "Counter_value c =
     (if aggregation_kind c = Counter_SUM then Inr (PyInt (Counter_total c))
      else if aggregation_kind c = Counter_MEAN
      then (case double_of_int (Counter_total c) of
              Inl e \<Rightarrow> Inl e
            | Inr ft \<Rightarrow> py_div (PyFloat ft) (PyInt (elements c)))
      else Inl TypeError)"

text \<open>A sequence of \<open>update\<close> calls on one counter, stopping at the first exception.\<close>

fun Counter_updates :: "(int \<Rightarrow> bool) \<Rightarrow> counter \<Rightarrow> int list \<Rightarrow> error + counter" where
  "Counter_updates fits c [] = Inr c"
| "Counter_updates fits c (d # ds) =
     (case Counter_update fits c d of
        Inl e \<Rightarrow> Inl e
      | Inr c1 \<Rightarrow> Counter_updates fits c1 ds)"

section \<open>Properties of the rounding to doubles\<close>

text \<open>The binary exponent brackets its argument.\<close>

lemma bitlen_bounds_rat:
  assumes "0 < (x::int)"
  shows "(2::rat) powi (bitlen x - 1) \<le> of_int x" "of_int x < (2::rat) powi (bitlen x)"
proof -
  have b: "2 ^ nat (bitlen x - 1) \<le> x" "x < 2 ^ nat (bitlen x)"
    using bitlen_bounds [OF assms] by simp_all
  have p: "1 \<le> bitlen x"
    using assms by (auto simp: bitlen_alt_def)
  have "(of_int (2 ^ nat (bitlen x - 1)) :: rat) \<le> of_int x"
    using b(1) by (simp only: of_int_le_iff)
  then show "(2::rat) powi (bitlen x - 1) \<le> of_int x"
    using p by (simp add: power_int_def)
  have "(of_int x :: rat) < of_int (2 ^ nat (bitlen x))"
    using b(2) by (simp only: of_int_less_iff)
  then show "of_int x < (2::rat) powi (bitlen x)"
    using p by (simp add: power_int_def)
qed

lemma floor_log2_bounds:
  assumes "0 < a"
  shows "2 powi (floor_log2 a) \<le> a" "a < 2 powi (floor_log2 a + 1)"
proof -
  obtain p d where q: "quotient_of a = (p, d)"
    by (cases "quotient_of a")
  have d: "0 < d" using q by (rule quotient_of_denom_pos)
  have a: "a = of_int p / of_int d" using q by (rule quotient_of_div)
  have p: "0 < p" using assms d unfolding a by (simp add: zero_less_divide_iff)
  let ?e0 = "bitlen p - bitlen d"
  have lo: "2 powi (?e0 - 1) < a"
  proof -
    have "(2::rat) powi (?e0 - 1) = 2 powi (bitlen p - 1) / 2 powi (bitlen d)"
      by (simp add: power_int_diff)
    also have "\<dots> \<le> of_int p / 2 powi (bitlen d)"
      using bitlen_bounds_rat(1) [OF p] by (simp add: divide_right_mono)
    also have "\<dots> < of_int p / of_int d"
      using bitlen_bounds_rat(2) [OF d] p d by (simp add: divide_strict_left_mono)
    finally show ?thesis unfolding a .
  qed
  have hi: "a < 2 powi (?e0 + 1)"
  proof -
    have "a < 2 powi (bitlen p) / of_int d"
      unfolding a using bitlen_bounds_rat(2) [OF p] d by (simp add: divide_strict_right_mono)
    also have "\<dots> \<le> 2 powi (bitlen p) / 2 powi (bitlen d - 1)"
      using bitlen_bounds_rat(1) [OF d] d by (intro divide_left_mono) simp_all
    also have "\<dots> = 2 powi (?e0 + 1)"
      by (simp add: power_int_diff power_int_add)
    finally show ?thesis .
  qed
  have fl: "floor_log2 a = (if 2 powi ?e0 \<le> a then ?e0 else ?e0 - 1)"
    by (simp add: floor_log2_def q Let_def)
  show "2 powi (floor_log2 a) \<le> a"
    unfolding fl using lo by (simp add: less_imp_le)
  show "a < 2 powi (floor_log2 a + 1)"
    unfolding fl using hi by (auto simp: not_le)
qed

text \<open>Integers of magnitude at most \<open>2 ^ 53\<close> are doubles: their conversion is exact.\<close>

lemma pow2_less_iff: "(2::rat) powi m < 2 powi n \<longleftrightarrow> m < n"
proof
  assume "(2::rat) powi m < 2 powi n"
  show "m < n"
  proof (rule ccontr)
    assume "\<not> m < n"
    then have "n \<le> m" by simp
    then have "(2::rat) powi n \<le> 2 powi m" by (intro power_int_increasing) simp_all
    with \<open>(2::rat) powi m < 2 powi n\<close> show False by simp
  qed
next
  assume "m < n"
  then show "(2::rat) powi m < 2 powi n" by (intro power_int_strict_increasing) simp_all
qed

lemma pow2_le_iff: "(2::rat) powi m \<le> 2 powi n \<longleftrightarrow> m \<le> n"
  using pow2_less_iff [of n m] by (simp add: not_less [symmetric])

lemma round_half_even_of_int [simp]: "round_half_even (of_int k) = k"
  by (simp add: round_half_even_def)

lemma nearest_double_exact:
  assumes "a / 2 powi (max (floor_log2 a) (- 1022) - 52) = of_int k"
  shows "nearest_double a = a"
proof -
  let ?t = "max (floor_log2 a) (- 1022) - 52"
  have "nearest_double a = of_int (round_half_even (a / 2 powi ?t)) * 2 powi ?t"
    by (simp add: nearest_double_def Let_def)
  also have "\<dots> = (a / 2 powi ?t) * 2 powi ?t"
    unfolding assms by simp
  also have "\<dots> = a"
    by simp
  finally show ?thesis .
qed

lemma floor_log2_int_range:
  assumes "0 < i" "i \<le> 2 ^ 53"
  shows "0 \<le> floor_log2 (of_int i)" "floor_log2 (of_int i) \<le> 53"
proof -
  let ?a = "of_int i :: rat"
  have a: "0 < ?a" using assms(1) by simp
  note b = floor_log2_bounds [OF a]
  have "(2::rat) powi 0 \<le> ?a" using assms(1) by simp
  then have "(2::rat) powi 0 < 2 powi (floor_log2 ?a + 1)"
    using b(2) by (rule le_less_trans)
  then have "0 < floor_log2 ?a + 1"
    by (simp only: pow2_less_iff)
  then show "0 \<le> floor_log2 ?a" by simp
  have "?a \<le> of_int (2 ^ 53)" using assms(2) by (simp only: of_int_le_iff)
  then have "?a \<le> 2 powi 53" by simp
  with b(1) have "(2::rat) powi (floor_log2 ?a) \<le> 2 powi 53"
    by (rule order_trans)
  then show "floor_log2 ?a \<le> 53"
    by (simp only: pow2_le_iff)
qed

lemma nearest_double_int:
  assumes "0 < i" "i \<le> 2 ^ 53"
  shows "nearest_double (of_int i) = of_int i"
proof -
  let ?a = "of_int i :: rat"
  let ?e = "floor_log2 ?a"
  have e: "0 \<le> ?e" "?e \<le> 53"
    using floor_log2_int_range [OF assms] by simp_all
  have t: "max ?e (- 1022) - 52 = ?e - 52"
    using e(1) by simp
  show ?thesis
  proof (cases "?e \<le> 52")
    case True
    have "?a / 2 powi (?e - 52) = ?a * 2 powi (52 - ?e)"
      by (simp add: power_int_diff)
    also have "\<dots> = ?a * 2 ^ nat (52 - ?e)"
      using True by (simp add: power_int_def)
    also have "\<dots> = of_int (i * 2 ^ nat (52 - ?e))"
      by simp
    finally show ?thesis
      by (intro nearest_double_exact) (simp only: t)
  next
    case False
    then have e53: "?e = 53" using e(2) by simp
    have a: "0 < ?a" using assms(1) by simp
    have "(2::rat) powi 53 \<le> ?a"
      using floor_log2_bounds(1) [OF a] unfolding e53 .
    then have "(of_int (2 ^ 53) :: rat) \<le> of_int i" by simp
    then have "2 ^ 53 \<le> i" by (simp only: of_int_le_iff)
    then have i: "i = 2 ^ 53" using assms(2) by simp
    have "?a / 2 powi (?e - 52) = of_int (2 ^ 52)"
      unfolding e53 unfolding i by simp
    then show ?thesis
      by (intro nearest_double_exact) (simp only: t)
  qed
qed

lemma round_double_int:
  assumes "\<bar>i\<bar> \<le> 2 ^ 53"
  shows "round_double (of_int i) = Finite (of_int i)"
proof (cases "i = 0")
  case True
  then show ?thesis by (simp add: round_double_def)
next
  case False
  let ?q = "of_int i :: rat"
  have pos: "0 < \<bar>i\<bar>" using False by simp
  have "nearest_double (of_int \<bar>i\<bar>) = of_int \<bar>i\<bar>"
    using pos assms by (rule nearest_double_int)
  then have n: "nearest_double \<bar>?q\<bar> = \<bar>?q\<bar>"
    by (simp only: of_int_abs)
  have "(of_int \<bar>i\<bar> :: rat) \<le> of_int (2 ^ 53)"
    using assms by (simp only: of_int_le_iff)
  then have "\<bar>?q\<bar> \<le> 2 ^ 53"
    by (simp only: of_int_abs of_int_power of_int_numeral)
  moreover have "(2 ^ 53 :: rat) < 2 ^ 1024"
    by (intro power_strict_increasing) simp_all
  ultimately have small: "\<not> 2 ^ 1024 \<le> \<bar>?q\<bar>"
    by linarith
  have q0: "?q \<noteq> 0" using False by simp
  have "round_double ?q = Finite (sgn ?q * \<bar>?q\<bar>)"
    unfolding round_double_def Let_def n using q0 small by (simp only: if_False)
  also have "sgn ?q * \<bar>?q\<bar> = ?q"
    by (rule sgn_mult_abs)
  finally show ?thesis .
qed

lemma double_of_int_exact:
  "\<bar>i\<bar> \<le> 2 ^ 53 \<Longrightarrow> double_of_int i = Inr (Finite (of_int i))"
  by (simp add: double_of_int_def round_double_int)

text \<open>Bounds on the rounded value, and the exact threshold of the overflow:
  \<open>float(i)\<close> raises exactly when \<open>2 ^ 1024 - 2 ^ 970 \<le> \<bar>i\<bar>\<close>, half a unit in the last
  place above the largest double.\<close>

lemma round_half_even_bounds:
  "\<lfloor>m\<rfloor> \<le> round_half_even m" "round_half_even m \<le> \<lfloor>m\<rfloor> + 1"
  by (simp_all add: round_half_even_def Let_def)

lemma round_half_even_ge_iff:
  assumes "even K"
  shows "K \<le> round_half_even m \<longleftrightarrow> of_int K - 1 / 2 \<le> m"
proof -
  let ?f = "\<lfloor>m\<rfloor>"
  have f: "of_int ?f \<le> m" "m < of_int ?f + 1"
    by linarith+
  consider "K \<le> ?f" | "?f = K - 1" | "?f \<le> K - 2"
    by linarith
  then show ?thesis
  proof cases
    case 1
    then have "K \<le> round_half_even m"
      using round_half_even_bounds(1) [of m] by linarith
    moreover have "(of_int K :: rat) \<le> of_int ?f"
      using 1 by (simp only: of_int_le_iff)
    then have "of_int K - 1 / 2 \<le> m"
      using f(1) by linarith
    ultimately show ?thesis by simp
  next
    case 2
    then have odd: "odd ?f" using assms by simp
    have r: "round_half_even m = (if m - of_int (K - 1) < 1 / 2 then K - 1 else K)"
      using odd unfolding round_half_even_def Let_def 2 by auto
    show ?thesis
      unfolding r by auto
  next
    case 3
    then have "round_half_even m \<le> K - 1"
      using round_half_even_bounds(2) [of m] by linarith
    moreover have "(of_int ?f :: rat) \<le> of_int (K - 2)"
      using 3 by (simp only: of_int_le_iff)
    then have "m < of_int K - 1 / 2"
      using f(2) by simp
    ultimately show ?thesis by simp
  qed
qed

lemma floor_log2_nonneg:
  assumes "1 \<le> a"
  shows "0 \<le> floor_log2 a"
proof -
  have a: "0 < a" using assms by simp
  have "(2::rat) powi 0 \<le> a" using assms by simp
  then have "(2::rat) powi 0 < 2 powi (floor_log2 a + 1)"
    using floor_log2_bounds(2) [OF a] by (rule le_less_trans)
  then have "0 < floor_log2 a + 1"
    by (simp only: pow2_less_iff)
  then show ?thesis by simp
qed

lemma nearest_double_unfold:
  assumes "1 \<le> a"
  shows "nearest_double a =
    of_int (round_half_even (a / 2 powi (floor_log2 a - 52))) * 2 powi (floor_log2 a - 52)"
  using floor_log2_nonneg [OF assms] by (simp add: nearest_double_def Let_def)

lemma scaled_bounds:
  assumes "1 \<le> a"
  shows "2 powi 52 \<le> a / 2 powi (floor_log2 a - 52)" "a / 2 powi (floor_log2 a - 52) < 2 powi 53"
proof -
  let ?e = "floor_log2 a"
  have a: "0 < a" using assms by simp
  have p: "(0::rat) < 2 powi (?e - 52)" by simp
  have "(2::rat) powi 52 = 2 powi ?e / 2 powi (?e - 52)"
    by (simp add: power_int_diff)
  also have "\<dots> \<le> a / 2 powi (?e - 52)"
    using floor_log2_bounds(1) [OF a] p by (simp only: divide_right_mono less_imp_le)
  finally show "2 powi 52 \<le> a / 2 powi (?e - 52)" .
  have "a / 2 powi (?e - 52) < 2 powi (?e + 1) / 2 powi (?e - 52)"
    using floor_log2_bounds(2) [OF a] p by (simp only: divide_strict_right_mono)
  also have "\<dots> = 2 powi 53"
    by (simp add: power_int_diff power_int_add)
  finally show "a / 2 powi (?e - 52) < 2 powi 53" .
qed

lemma round_scaled_bounds:
  assumes "1 \<le> a"
  shows "2 ^ 52 \<le> round_half_even (a / 2 powi (floor_log2 a - 52))"
    "round_half_even (a / 2 powi (floor_log2 a - 52)) \<le> 2 ^ 53"
proof -
  let ?m = "a / 2 powi (floor_log2 a - 52)"
  have "(of_int (2 ^ 52) :: rat) \<le> ?m"
    using scaled_bounds(1) [OF assms] by simp
  then have "2 ^ 52 \<le> \<lfloor>?m\<rfloor>"
    by (simp only: le_floor_iff)
  then show "2 ^ 52 \<le> round_half_even ?m"
    using round_half_even_bounds(1) [of ?m] by linarith
  have "?m < of_int (2 ^ 53)"
    using scaled_bounds(2) [OF assms] by simp
  then have "\<lfloor>?m\<rfloor> < 2 ^ 53"
    by (simp only: floor_less_iff)
  then show "round_half_even ?m \<le> 2 ^ 53"
    using round_half_even_bounds(2) [of ?m] by linarith
qed

lemma nearest_double_bounds:
  assumes "1 \<le> a"
  shows "2 powi (floor_log2 a) \<le> nearest_double a" "nearest_double a \<le> 2 powi (floor_log2 a + 1)"
proof -
  let ?e = "floor_log2 a"
  let ?k = "round_half_even (a / 2 powi (?e - 52))"
  have p: "(0::rat) \<le> 2 powi (?e - 52)" by simp
  have k1: "(2 powi 52 :: rat) \<le> of_int ?k"
  proof -
    have "(of_int (2 ^ 52) :: rat) \<le> of_int ?k"
      using round_scaled_bounds(1) [OF assms] by (simp only: of_int_le_iff)
    then show ?thesis by simp
  qed
  have k2: "(of_int ?k :: rat) \<le> 2 powi 53"
  proof -
    have "(of_int ?k :: rat) \<le> of_int (2 ^ 53)"
      using round_scaled_bounds(2) [OF assms] by (simp only: of_int_le_iff)
    then show ?thesis by simp
  qed
  have "(2::rat) powi ?e = 2 powi 52 * 2 powi (?e - 52)"
    by (simp add: power_int_diff)
  also have "\<dots> \<le> of_int ?k * 2 powi (?e - 52)"
    using k1 p by (rule mult_right_mono)
  finally show "2 powi ?e \<le> nearest_double a"
    unfolding nearest_double_unfold [OF assms] .
  have "of_int ?k * (2::rat) powi (?e - 52) \<le> 2 powi 53 * 2 powi (?e - 52)"
    using k2 p by (rule mult_right_mono)
  also have "\<dots> = 2 powi (?e + 1)"
    by (simp add: power_int_diff power_int_add)
  finally show "nearest_double a \<le> 2 powi (?e + 1)"
    unfolding nearest_double_unfold [OF assms] .
qed

lemma nearest_double_pos:
  assumes "1 \<le> a"
  shows "0 < nearest_double a"
proof -
  have "(0::rat) < 2 powi (floor_log2 a)" by simp
  then show ?thesis
    using nearest_double_bounds(1) [OF assms] by (rule less_le_trans)
qed

lemma nearest_double_overflow_iff:
  assumes "1 \<le> a"
  shows "2 ^ 1024 \<le> nearest_double a \<longleftrightarrow> 2 ^ 1024 - 2 ^ 970 \<le> a"
proof -
  let ?e = "floor_log2 a"
  have a: "0 < a" using assms by simp
  note fb = floor_log2_bounds [OF a]
  note nb = nearest_double_bounds [OF assms]
  consider "1024 \<le> ?e" | "?e \<le> 1022" | "?e = 1023"
    by linarith
  then show ?thesis
  proof cases
    case 1
    then have "(2::rat) powi 1024 \<le> 2 powi ?e"
      by (simp only: pow2_le_iff)
    then have "(2::rat) powi 1024 \<le> nearest_double a" "(2::rat) powi 1024 \<le> a"
      using nb(1) fb(1) by linarith+
    then show ?thesis by simp
  next
    case 2
    then have "?e + 1 \<le> 1023" by simp
    then have "(2::rat) powi (?e + 1) \<le> 2 powi 1023"
      by (simp only: pow2_le_iff)
    then have "nearest_double a \<le> 2 powi 1023" "a < 2 powi 1023"
      using nb(2) fb(2) by linarith+
    then show ?thesis by simp
  next
    case 3
    let ?c = "(2::rat) powi 971"
    let ?m = "a / ?c"
    have c: "0 < ?c" by simp
    have nd: "nearest_double a = of_int (round_half_even ?m) * ?c"
      using nearest_double_unfold [OF assms] unfolding 3 by simp
    have A: "(2::rat) ^ 1024 = of_int (2 ^ 53) * ?c"
      by simp
    have "(2 ^ 1024 \<le> nearest_double a) = (of_int (2 ^ 53) * ?c \<le> of_int (round_half_even ?m) * ?c)"
      unfolding nd A ..
    also have "\<dots> = ((of_int (2 ^ 53) :: rat) \<le> of_int (round_half_even ?m))"
      using c by simp
    also have "\<dots> = (2 ^ 53 \<le> round_half_even ?m)"
      by (simp only: of_int_le_iff)
    also have "\<dots> = (of_int (2 ^ 53) - 1 / 2 \<le> ?m)"
      by (rule round_half_even_ge_iff) simp
    also have "\<dots> = ((of_int (2 ^ 53) - 1 / 2) * ?c \<le> a)"
      using c by (simp only: pos_le_divide_eq)
    also have "\<dots> = (2 ^ 1024 - 2 ^ 970 \<le> a)"
      by simp
    finally show ?thesis .
  qed
qed

lemma round_double_int_cases:
  assumes "i \<noteq> 0"
  shows "round_double (of_int i) =
    (if 2 ^ 1024 - 2 ^ 970 \<le> \<bar>i\<bar> then (if 0 < i then PosInf else NegInf)
     else Finite (sgn (of_int i) * nearest_double (of_int \<bar>i\<bar>)))"
proof -
  have a: "(1::rat) \<le> of_int \<bar>i\<bar>"
    using assms by simp
  have "(2 ^ 1024 - 2 ^ 970 \<le> (of_int \<bar>i\<bar> :: rat)) = (of_int (2 ^ 1024 - 2 ^ 970) \<le> (of_int \<bar>i\<bar> :: rat))"
    by simp
  also have "\<dots> = (2 ^ 1024 - 2 ^ 970 \<le> \<bar>i\<bar>)"
    by (simp only: of_int_le_iff)
  finally have b: "(2 ^ 1024 \<le> nearest_double (of_int \<bar>i\<bar>)) = (2 ^ 1024 - 2 ^ 970 \<le> \<bar>i\<bar>)"
    using nearest_double_overflow_iff [OF a] by simp
  have q: "(of_int i :: rat) \<noteq> 0" "\<bar>of_int i :: rat\<bar> = of_int \<bar>i\<bar>" "(0 < (of_int i :: rat)) = (0 < i)"
    using assms by simp_all
  show ?thesis
    unfolding round_double_def Let_def q(2) b using q(1) q(3) by (simp only: if_False)
qed

lemma double_of_int_overflow_iff:
  "double_of_int i = Inl OverflowError \<longleftrightarrow> 2 ^ 1024 - 2 ^ 970 \<le> \<bar>i\<bar>"
proof (cases "i = 0")
  case True
  then show ?thesis by (simp add: double_of_int_def round_double_def)
next
  case False
  show ?thesis
    unfolding double_of_int_def round_double_int_cases [OF False] by simp
qed

lemma double_of_int_finite:
  assumes "\<not> 2 ^ 1024 - 2 ^ 970 \<le> \<bar>i\<bar>"
  shows "\<exists>r. double_of_int i = Inr (Finite r) \<and> (r = 0 \<longleftrightarrow> i = 0)"
proof (cases "i = 0")
  case True
  then show ?thesis by (simp add: double_of_int_def round_double_def)
next
  case False
  have a: "(1::rat) \<le> of_int \<bar>i\<bar>"
    using False by simp
  have "0 < nearest_double (of_int \<bar>i\<bar>)"
    using a by (rule nearest_double_pos)
  then have "sgn (of_int i :: rat) * nearest_double (of_int \<bar>i\<bar>) \<noteq> 0"
    using False by (simp add: sgn_eq_0_iff)
  then show ?thesis
    unfolding double_of_int_def round_double_int_cases [OF False] using assms False by simp
qed

text \<open>Evaluating the rounding at a value whose binary exponent is known.\<close>

lemma floor_log2_eqI:
  assumes "2 powi e \<le> a" "a < 2 powi (e + 1)"
  shows "floor_log2 a = e"
proof -
  have "(0::rat) < 2 powi e" by simp
  then have a: "0 < a" using assms(1) by (rule less_le_trans)
  note b = floor_log2_bounds [OF a]
  have "(2::rat) powi e < 2 powi (floor_log2 a + 1)"
    using assms(1) b(2) by (rule le_less_trans)
  then have 1: "e < floor_log2 a + 1" by (simp only: pow2_less_iff)
  have "(2::rat) powi (floor_log2 a) < 2 powi (e + 1)"
    using b(1) assms(2) by (rule le_less_trans)
  then have 2: "floor_log2 a < e + 1" by (simp only: pow2_less_iff)
  show ?thesis using 1 2 by simp
qed

lemma round_double_at:
  assumes "0 \<le> e" "e \<le> 1022" "2 powi e \<le> q" "q < 2 powi (e + 1)"
  shows "round_double q = Finite (of_int (round_half_even (q / 2 powi (e - 52))) * 2 powi (e - 52))"
proof -
  have fl: "floor_log2 q = e"
    using assms(3,4) by (rule floor_log2_eqI)
  have "(2::rat) powi 0 \<le> 2 powi e"
    using assms(1) by (simp only: pow2_le_iff)
  then have q1: "1 \<le> q" using assms(3) by simp
  have nd: "nearest_double q = of_int (round_half_even (q / 2 powi (e - 52))) * 2 powi (e - 52)"
    using nearest_double_unfold [OF q1] unfolding fl .
  have "e + 1 \<le> 1023" using assms(2) by simp
  then have "(2::rat) powi (e + 1) \<le> 2 powi 1023"
    by (simp only: pow2_le_iff)
  moreover have "nearest_double q \<le> 2 powi (e + 1)"
    using nearest_double_bounds(2) [OF q1] unfolding fl .
  ultimately have "nearest_double q \<le> 2 powi 1023" by (rule order_trans [rotated])
  then have small: "\<not> 2 ^ 1024 \<le> nearest_double q" by simp
  have q: "q \<noteq> 0" "\<bar>q\<bar> = q" "sgn q = 1" "0 < q" using q1 by simp_all
  show ?thesis
    unfolding round_double_def Let_def q(2) q(3) nd [symmetric] using q(1) small by simp
qed

lemma round_half_even_eqI:
  assumes "of_int k - 1 / 2 < m" "m < of_int k + 1 / 2"
  shows "round_half_even m = k"
proof (cases "of_int k \<le> m")
  case True
  have "\<lfloor>m\<rfloor> = k"
    using True assms(2) by (intro floor_unique) simp_all
  then show ?thesis
    using assms(2) by (simp add: round_half_even_def Let_def)
next
  case False
  have "\<lfloor>m\<rfloor> = k - 1"
    using False assms(1) by (intro floor_unique) simp_all
  then show ?thesis
    using assms(1) by (simp add: round_half_even_def Let_def)
qed

lemma round_half_even_tie:
  "round_half_even (of_int k + 1 / 2) = (if even k then k else k + 1)"
proof -
  have "\<lfloor>of_int k + 1 / 2 :: rat\<rfloor> = k"
    by (intro floor_unique) simp_all
  then show ?thesis
    by (simp add: round_half_even_def Let_def)
qed

lemma round_double_1e16: "round_double (10 ^ 16) = Finite (10 ^ 16)"
  using round_double_at [of 53 "10 ^ 16"] round_half_even_of_int [of 5000000000000000]
  by simp

lemma round_double_1e16_plus_1: "round_double (10 ^ 16 + 1) = Finite (10 ^ 16)"
  using round_double_at [of 53 "10 ^ 16 + 1"] round_half_even_tie [of 5000000000000000]
  by simp

lemma round_double_1e16_plus_2: "round_double (10 ^ 16 + 2) = Finite (10 ^ 16 + 2)"
  using round_double_at [of 53 "10 ^ 16 + 2"] round_half_even_of_int [of 5000000000000001]
  by simp

lemma round_double_1e16_div_3: "round_double (10 ^ 16 / 3) = Finite (6666666666666667 / 2)"
  using round_double_at [of 51 "10 ^ 16 / 3"]
    round_half_even_eqI [of 6666666666666667 "20000000000000000 / 3"]
  by simp

lemma round_double_1e16_plus_2_div_3: "round_double ((10 ^ 16 + 2) / 3) = Finite 3333333333333334"
  using round_double_int [of 3333333333333334] by simp


section \<open>Properties of counters\<close>

lemma Counter_update_total:
  "\<exists>c1. Counter_update fits c d = Inr c1 \<and> Counter_total c1 = Counter_total c + d
     \<and> elements c1 = elements c + 1 \<and> aggregation_kind c1 = aggregation_kind c"
  by (simp add: Counter_update_def Counter_update_small_def Counter_total_def Let_def)

lemma Counter_updates_total:
  "\<exists>c1. Counter_updates fits c ds = Inr c1 \<and> Counter_total c1 = Counter_total c + sum_list ds
     \<and> elements c1 = elements c + int (length ds) \<and> aggregation_kind c1 = aggregation_kind c"
proof (induction ds arbitrary: c)
  case Nil
  show ?case by simp
next
  case (Cons d ds)
  obtain c1 where c1: "Counter_update fits c d = Inr c1"
      "Counter_total c1 = Counter_total c + d" "elements c1 = elements c + 1"
      "aggregation_kind c1 = aggregation_kind c"
    using Counter_update_total [of fits c d] by blast
  obtain c2 where c2: "Counter_updates fits c1 ds = Inr c2"
      "Counter_total c2 = Counter_total c1 + sum_list ds"
      "elements c2 = elements c1 + int (length ds)"
      "aggregation_kind c2 = aggregation_kind c1"
    using Cons.IH [of c1] by blast
  show ?case using c1 c2 by simp
qed

lemma Counter_init_fresh:
  "kind = Counter_SUM \<or> kind = Counter_MEAN \<Longrightarrow>
   \<exists>c0. Counter_init k nm kind = Inr c0 \<and> Counter_total c0 = 0 \<and> elements c0 = 0
     \<and> aggregation_kind c0 = kind"
  by (auto simp: Counter_init_def Counter_total_def)

text \<open>
  Claim C7. A freshly created SUM counter accepts every sequence of updates, whatever the
  representable range of the fast total is; afterwards \<open>value()\<close> is the exact sum of all
  deltas passed to \<open>update\<close> and the element count is the number of calls. The second
  conjunct exhibits a run over the signed 64-bit range in which the second and
  the third update overflow the fast total and are accounted for in the unbounded total.
\<close>

theorem Counter_sum_value_exact:
  "(\<exists>c0 c. Counter_init k nm Counter_SUM = Inr c0
        \<and> Counter_updates fits c0 ds = Inr c
        \<and> Counter_value c = Inr (PyInt (sum_list ds))
        \<and> elements c = int (length ds))
   \<and> (\<exists>c0 c. Counter_init k nm Counter_SUM = Inr c0
        \<and> Counter_updates fits_int64 c0 [2 ^ 63 - 1, 1, 5] = Inr c
        \<and> c_total c = 2 ^ 63 - 1 \<and> py_total c = 6
        \<and> Counter_value c = Inr (PyInt (2 ^ 63 + 5)))"
proof (rule conjI)
  obtain c0 where c0: "Counter_init k nm Counter_SUM = Inr c0" "Counter_total c0 = 0"
      "elements c0 = 0" "aggregation_kind c0 = Counter_SUM"
    using Counter_init_fresh [of Counter_SUM k nm] by blast
  obtain c where c: "Counter_updates fits c0 ds = Inr c"
      "Counter_total c = Counter_total c0 + sum_list ds"
      "elements c = elements c0 + int (length ds)"
      "aggregation_kind c = aggregation_kind c0"
    using Counter_updates_total [of fits c0 ds] by blast
  have "Counter_value c = Inr (PyInt (sum_list ds))"
    using c0 c by (simp add: Counter_value_def)
  then show "\<exists>c0 c. Counter_init k nm Counter_SUM = Inr c0
        \<and> Counter_updates fits c0 ds = Inr c
        \<and> Counter_value c = Inr (PyInt (sum_list ds))
        \<and> elements c = int (length ds)"
    using c0 c by simp
next
  show "\<exists>c0 c. Counter_init k nm Counter_SUM = Inr c0
        \<and> Counter_updates fits_int64 c0 [2 ^ 63 - 1, 1, 5] = Inr c
        \<and> c_total c = 2 ^ 63 - 1 \<and> py_total c = 6
        \<and> Counter_value c = Inr (PyInt (2 ^ 63 + 5))"
    by (simp add: Counter_init_def Counter_update_def Counter_update_small_def
        Counter_value_def Counter_total_def fits_int64_def Counter_SUM_def Counter_MEAN_def)
qed








section \<open>The counter registry (utils/counters.py)\<close>

text \<open>
  An aggregator is known to this module by its \<open>name\<close> and \<open>aggregation_kind\<close>
  attributes. The argument \<open>aggregator_or_name\<close> is an aggregator object, or a string
  (\<open>isinstance(aggregator_or_name, basestring)\<close>).
\<close>

record aggregator =
  agg_name :: string
  agg_aggregation_kind :: int

datatype aggregator_or_name = AggregatorObject aggregator | NameString string

definition USER_COUNTER_PREFIX :: string where
  "USER_COUNTER_PREFIX = ''user-''"

definition startswith :: "string \<Rightarrow> string \<Rightarrow> bool" where
  "startswith s p = (take (length p) s = p)"

definition endswith :: "string \<Rightarrow> string \<Rightarrow> bool" where
  "endswith s p = (length p \<le> length s \<and> drop (length s - length p) s = p)"

text \<open>
  The dictionary \<open>CounterFactory.counters\<close> is an association list with distinct keys.
  Counter objects are shared by reference between the dictionary and the callers of
  \<open>get_counter\<close>; since every counter object is stored under its own name, the model
  keeps the objects in the dictionary and lets an update address a counter by name. The
  lock around the dictionary has no effect in a sequential run.
\<close>

record counter_factory =
  counters :: "(string \<times> counter) list"

definition CounterFactory_init :: counter_factory where
  "CounterFactory_init = \<lparr>counters = []\<rparr>"

fun dict_set :: "('k \<times> 'v) list \<Rightarrow> 'k \<Rightarrow> 'v \<Rightarrow> ('k \<times> 'v) list" where
  "dict_set [] k v = [(k, v)]"
| "dict_set ((k', v') # d) k v = (if k' = k then (k, v) # d else (k', v') # dict_set d k v)"

definition CounterFactory_get_counter ::
    "counter_factory \<Rightarrow> string \<Rightarrow> int \<Rightarrow> error + counter_factory \<times> counter" where
  "CounterFactory_get_counter f nm kind =
     (case map_of (counters f) nm of
        Some c \<Rightarrow> if aggregation_kind c = kind then Inr (f, c) else Inl AssertionError
      | None \<Rightarrow>
          (case Counter_init Counter_cls nm kind of
             Inl e \<Rightarrow> Inl e
           | Inr c \<Rightarrow> Inr (f\<lparr>counters := dict_set (counters f) nm c\<rparr>, c)))"

definition CounterFactory_get_aggregator_counter ::
    "counter_factory \<Rightarrow> string \<Rightarrow> aggregator \<Rightarrow> error + counter_factory \<times> counter" where
  "CounterFactory_get_aggregator_counter f step_name a =
     (let nm = USER_COUNTER_PREFIX @ step_name @ ''-'' @ agg_name a;
          kind = agg_aggregation_kind a
      in case map_of (counters f) nm of
           Some c \<Rightarrow>
             if cls c = AggregatorCounter_cls
             then (if aggregation_kind c = kind then Inr (f, c) else Inl AssertionError)
             else Inl AssertionError
         | None \<Rightarrow>
             (case Counter_init AggregatorCounter_cls nm kind of
                Inl e \<Rightarrow> Inl e
              | Inr c \<Rightarrow> Inr (f\<lparr>counters := dict_set (counters f) nm c\<rparr>, c)))"

text \<open>\<open>counter.update(cnt)\<close> on the counter object registered under \<open>nm\<close>.\<close>

definition CounterFactory_update ::
    "(int \<Rightarrow> bool) \<Rightarrow> counter_factory \<Rightarrow> string \<Rightarrow> int \<Rightarrow> error + counter_factory" where
  "CounterFactory_update fits f nm cnt =
     (case map_of (counters f) nm of
        None \<Rightarrow> Inl KeyError
      | Some c \<Rightarrow>
          (case Counter_update fits c cnt of
             Inl e \<Rightarrow> Inl e
           | Inr c1 \<Rightarrow> Inr (f\<lparr>counters := dict_set (counters f) nm c1\<rparr>)))"

text \<open>
  The dictionary comprehension \<open>{n: value_extractor(c) for n, c in d.iteritems() if P n}\<close>.
  The keys of the result are the keys \<open>n\<close> of the source dictionary.
\<close>

fun dict_comprehension ::
    "(string \<Rightarrow> bool) \<Rightarrow> ('c \<Rightarrow> error + 'v) \<Rightarrow> (string \<times> 'c) list \<Rightarrow> error + (string \<times> 'v) list" where
  "dict_comprehension P f [] = Inr []"
| "dict_comprehension P f ((n, c) # d) =
     (if P n
      then (case f c of
              Inl e \<Rightarrow> Inl e
            | Inr v \<Rightarrow>
                (case dict_comprehension P f d of
                   Inl e \<Rightarrow> Inl e
                 | Inr r \<Rightarrow> Inr ((n, v) # r)))
      else dict_comprehension P f d)"

text \<open>
  The module-level function \<open>get_aggregator_values\<close>. Its \<open>return\<close> statement stands
  inside the branch \<open>if not isinstance(aggregator_or_name, basestring)\<close>; for a string
  argument the function body ends without a \<open>return\<close>, and the call yields Python's
  \<open>None\<close>, here \<open>Inr None\<close>. The default \<open>value_extractor=None\<close> stands for the
  identity, which a caller of the model passes as \<open>Inr\<close>.
\<close>

definition get_aggregator_values ::
    "aggregator_or_name \<Rightarrow> (string \<times> 'c) list \<Rightarrow> ('c \<Rightarrow> error + 'v)
       \<Rightarrow> error + (string \<times> 'v) list option" where
  "get_aggregator_values aggregator_or_name counter_dict value_extractor =
     (case aggregator_or_name of
        AggregatorObject a \<Rightarrow>
          (let nm = agg_name a
           in case dict_comprehension
                     (\<lambda>n. startswith n USER_COUNTER_PREFIX \<and> endswith n (''-'' @ nm))
                     value_extractor counter_dict of
                Inl e \<Rightarrow> Inl e
              | Inr r \<Rightarrow> Inr (Some r))
      | NameString nm \<Rightarrow> Inr None)"

definition CounterFactory_get_aggregator_values ::
    "counter_factory \<Rightarrow> aggregator_or_name \<Rightarrow> error + (string \<times> number) list option" where
  "CounterFactory_get_aggregator_values f aggregator_or_name =
     get_aggregator_values aggregator_or_name (counters f) (\<lambda>c. Counter_value c)"

text \<open>
  Claim C1, evaluated on the code. One SUM aggregator named \<open>total\<close> is registered for
  the step \<open>s1\<close> and updated by 5. Asked by the aggregator object, the registry returns
  a dictionary whose only key is the full counter name \<open>user-s1-total\<close>, not the step name
  \<open>s1\<close>. Asked by the name string, it returns \<open>None\<close> and no dictionary at all.
\<close>

theorem get_aggregator_values_by_name_returns_None:
  "\<exists>f1 c1 f2.
      CounterFactory_get_aggregator_counter CounterFactory_init ''s1''
          \<lparr>agg_name = ''total'', agg_aggregation_kind = Counter_SUM\<rparr> = Inr (f1, c1)
    \<and> name c1 = ''user-s1-total''
    \<and> CounterFactory_update fits_int64 f1 (name c1) 5 = Inr f2
    \<and> CounterFactory_get_aggregator_values f2
          (AggregatorObject \<lparr>agg_name = ''total'', agg_aggregation_kind = Counter_SUM\<rparr>)
        = Inr (Some [(''user-s1-total'', PyInt 5)])
    \<and> CounterFactory_get_aggregator_values f2 (NameString ''total'') = Inr None"
proof -
  let ?a = "\<lparr>agg_name = ''total'', agg_aggregation_kind = Counter_SUM\<rparr>"
  let ?c1 = "\<lparr>cls = AggregatorCounter_cls, name = ''user-s1-total'',
      aggregation_kind = Counter_SUM, c_total = 0, py_total = 0, elements = 0\<rparr>"
  let ?f1 = "\<lparr>counters = [(''user-s1-total'', ?c1)]\<rparr>"
  let ?f2 = "\<lparr>counters = [(''user-s1-total'', ?c1\<lparr>c_total := 5, elements := 1\<rparr>)]\<rparr>"
  have 1: "CounterFactory_get_aggregator_counter CounterFactory_init ''s1'' ?a = Inr (?f1, ?c1)"
    by (simp add: CounterFactory_get_aggregator_counter_def CounterFactory_init_def
        Counter_init_def USER_COUNTER_PREFIX_def Let_def)
  have 2: "CounterFactory_update fits_int64 ?f1 (name ?c1) 5 = Inr ?f2"
    by (simp add: CounterFactory_update_def Counter_update_def Counter_update_small_def
        fits_int64_def)
  have 3: "CounterFactory_get_aggregator_values ?f2 (AggregatorObject ?a)
      = Inr (Some [(''user-s1-total'', PyInt 5)])"
    by (simp add: CounterFactory_get_aggregator_values_def get_aggregator_values_def
        Counter_value_def Counter_total_def USER_COUNTER_PREFIX_def startswith_def
        endswith_def Let_def)
  have 4: "CounterFactory_get_aggregator_values ?f2 (NameString ''total'') = Inr None"
    by (simp add: CounterFactory_get_aggregator_values_def get_aggregator_values_def)
  have 5: "name ?c1 = ''user-s1-total''"
    by simp
  show ?thesis
    using 1 2 3 4 5 by blast
qed

section \<open>The Mean combiner (transforms/combiners.py)\<close>

text \<open>
  \<open>MeanCombineFn\<close>, declared for inputs of type \<open>Union[float, int, long]\<close>. The accumulator
  is the pair of the running sum, a number, and the running count, an integer.
\<close>

type_synonym mean_accumulator = "number \<times> int"

definition MeanCombineFn_create_accumulator :: mean_accumulator where
  "MeanCombineFn_create_accumulator = (PyInt 0, 0)"

definition MeanCombineFn_add_input :: "mean_accumulator \<Rightarrow> number \<Rightarrow> error + mean_accumulator" where
  "MeanCombineFn_add_input acc element =
     (case acc of
        (sum_, cnt) \<Rightarrow>
          (case py_add sum_ element of
             Inl e \<Rightarrow> Inl e
           | Inr s \<Rightarrow> Inr (s, cnt + 1)))"

text \<open>
  \<open>merge_accumulators\<close> unpacks \<open>zip(*accumulators)\<close> into two names, which raises
  \<open>ValueError\<close> for an empty sequence of accumulators, and sums both components with the
  builtin \<open>sum\<close>.
\<close>

definition MeanCombineFn_merge_accumulators :: "mean_accumulator list \<Rightarrow> error + mean_accumulator" where
  "MeanCombineFn_merge_accumulators accumulators =
     (if accumulators = [] then Inl ValueError
      else (case py_sum (PyInt 0) (map fst accumulators) of
              Inl e \<Rightarrow> Inl e
            | Inr s \<Rightarrow> Inr (s, sum_list (map snd accumulators))))"

text \<open>
  \<open>extract_output\<close> returns \<open>float('NaN')\<close> for the count 0 and \<open>sum_ / float(count)\<close>
  otherwise; the conversion of the count and, for an integer sum, the conversion of the
  sum can raise \<open>OverflowError\<close>.
\<close>

definition MeanCombineFn_extract_output :: "mean_accumulator \<Rightarrow> error + number" where
  "MeanCombineFn_extract_output acc =
     (case acc of
        (sum_, cnt) \<Rightarrow>
          if cnt = 0 then Inr (PyFloat NaN)
          else (case double_of_int cnt of
                  Inl e \<Rightarrow> Inl e
                | Inr fc \<Rightarrow> py_div sum_ (PyFloat fc)))"

text \<open>The accumulator of a stream: \<open>add_input\<close> over its elements from the empty
  accumulator, as the default \<open>add_inputs\<close> does, stopping at the first exception.\<close>

fun MeanCombineFn_add_inputs :: "mean_accumulator \<Rightarrow> number list \<Rightarrow> error + mean_accumulator" where
  "MeanCombineFn_add_inputs acc [] = Inr acc"
| "MeanCombineFn_add_inputs acc (x # xs) =
     (case MeanCombineFn_add_input acc x of
        Inl e \<Rightarrow> Inl e
      | Inr acc1 \<Rightarrow> MeanCombineFn_add_inputs acc1 xs)"

definition MeanCombineFn_accumulate :: "number list \<Rightarrow> error + mean_accumulator" where
  "MeanCombineFn_accumulate xs = MeanCombineFn_add_inputs MeanCombineFn_create_accumulator xs"

section \<open>Properties of the Mean combiner\<close>

lemma py_add_int [simp]: "py_add (PyInt a) (PyInt b) = Inr (PyInt (a + b))"
  by (simp add: py_add_def)

lemma Mean_add_inputs_int:
  "MeanCombineFn_add_inputs (PyInt s, c) (map PyInt xs)
     = Inr (PyInt (s + sum_list xs), c + int (length xs))"
  by (induction xs arbitrary: s c) (simp_all add: MeanCombineFn_add_input_def)

lemma Mean_accumulate_int:
  "MeanCombineFn_accumulate (map PyInt xs) = Inr (PyInt (sum_list xs), int (length xs))"
  by (simp add: MeanCombineFn_accumulate_def MeanCombineFn_create_accumulator_def
      Mean_add_inputs_int)

lemma py_sum_int:
  "py_sum (PyInt s) (map PyInt ys) = Inr (PyInt (s + sum_list ys))"
  by (induction ys arbitrary: s) simp_all

lemma Mean_extract_int_overflow:
  assumes "n \<noteq> 0"
  shows "MeanCombineFn_extract_output (PyInt s, n) = Inl OverflowError
     \<longleftrightarrow> 2 ^ 1024 - 2 ^ 970 \<le> \<bar>s\<bar> \<or> 2 ^ 1024 - 2 ^ 970 \<le> \<bar>n\<bar>"
proof (cases "2 ^ 1024 - 2 ^ 970 \<le> \<bar>n\<bar>")
  case True
  then have "double_of_int n = Inl OverflowError"
    by (simp only: double_of_int_overflow_iff)
  then show ?thesis
    using assms True by (simp add: MeanCombineFn_extract_output_def)
next
  case False
  obtain fn where fn: "double_of_int n = Inr (Finite fn)" "fn \<noteq> 0"
    using double_of_int_finite [OF False] assms by auto
  show ?thesis
  proof (cases "2 ^ 1024 - 2 ^ 970 \<le> \<bar>s\<bar>")
    case True
    then have "double_of_int s = Inl OverflowError"
      by (simp only: double_of_int_overflow_iff)
    then show ?thesis
      using assms True fn
      by (simp add: MeanCombineFn_extract_output_def py_div_def to_double_def)
  next
    case sf: False
    obtain fs where fs: "double_of_int s = Inr (Finite fs)"
      using double_of_int_finite [OF sf] by auto
    show ?thesis
      using assms False sf fn fs
      by (simp add: MeanCombineFn_extract_output_def py_div_def to_double_def)
  qed
qed

lemma Mean_extract_int_finite:
  assumes "n \<noteq> 0" "\<not> 2 ^ 1024 - 2 ^ 970 \<le> \<bar>s\<bar>" "\<not> 2 ^ 1024 - 2 ^ 970 \<le> \<bar>n\<bar>"
  shows "\<exists>fs fn. double_of_int s = Inr (Finite fs) \<and> double_of_int n = Inr (Finite fn)
    \<and> MeanCombineFn_extract_output (PyInt s, n) = Inr (PyFloat (round_double (fs / fn)))"
proof -
  obtain fn where fn: "double_of_int n = Inr (Finite fn)" "fn \<noteq> 0"
    using double_of_int_finite [OF assms(3)] assms(1) by auto
  obtain fs where fs: "double_of_int s = Inr (Finite fs)"
    using double_of_int_finite [OF assms(2)] by auto
  have "MeanCombineFn_extract_output (PyInt s, n) = Inr (PyFloat (round_double (fs / fn)))"
    using assms(1) fn fs
    by (simp add: MeanCombineFn_extract_output_def py_div_def to_double_def)
  then show ?thesis using fn fs by simp
qed

lemma Mean_extract_int_exact:
  assumes "n \<noteq> 0" "\<bar>s\<bar> \<le> 2 ^ 53" "\<bar>n\<bar> \<le> 2 ^ 53"
  shows "MeanCombineFn_extract_output (PyInt s, n)
     = Inr (PyFloat (round_double (of_int s / of_int n)))"
  using assms(1) double_of_int_exact [OF assms(2)] double_of_int_exact [OF assms(3)]
  by (simp add: MeanCombineFn_extract_output_def py_div_def to_double_def)

lemma Mean_merge_int:
  assumes "xss \<noteq> []"
  shows "MeanCombineFn_merge_accumulators
      (map (\<lambda>xs. (PyInt (sum_list xs), int (length xs))) xss)
     = Inr (PyInt (sum_list (concat xss)), int (length (concat xss)))"
proof -
  have 1: "map fst (map (\<lambda>xs. (PyInt (sum_list xs), int (length xs))) xss)
      = map PyInt (map sum_list xss)"
    by simp
  have 2: "sum_list (map snd (map (\<lambda>xs. (PyInt (sum_list xs), int (length xs))) xss))
      = int (length (concat xss))"
    by (induction xss) simp_all
  have 3: "sum_list (map sum_list xss) = sum_list (concat xss)"
    by (induction xss) simp_all
  show ?thesis
    unfolding MeanCombineFn_merge_accumulators_def 1 2 py_sum_int using assms 3 by simp
qed

text \<open>
  Claim C6 does not hold as stated, for two reasons. The mean of the one-element input
  \<open>2 ^ 1024\<close> is not returned: \<open>extract_output\<close> raises \<open>OverflowError\<close> when it divides
  the integer sum by the float count. And float addition is not associative: the
  accumulator of the float stream \<open>1e16, 1.0, 1.0\<close> has the sum \<open>1e16\<close>, while merging the
  accumulators of its sub-streams \<open>1e16\<close> and \<open>1.0, 1.0\<close> gives the sum \<open>1e16 + 2\<close>, so the
  outputs extracted after merging and after accumulating the whole stream differ
  (3333333333333334.0 and 3333333333333333.5).
\<close>

theorem Mean_combiner_counterexample:
  "MeanCombineFn_accumulate [PyInt (2 ^ 1024)] = Inr (PyInt (2 ^ 1024), 1)
   \<and> MeanCombineFn_extract_output (PyInt (2 ^ 1024), 1) = Inl OverflowError
   \<and> MeanCombineFn_accumulate [PyFloat (Finite (10 ^ 16))] = Inr (PyFloat (Finite (10 ^ 16)), 1)
   \<and> MeanCombineFn_accumulate [PyFloat (Finite 1), PyFloat (Finite 1)]
       = Inr (PyFloat (Finite 2), 2)
   \<and> MeanCombineFn_merge_accumulators [(PyFloat (Finite (10 ^ 16)), 1), (PyFloat (Finite 2), 2)]
       = Inr (PyFloat (Finite (10 ^ 16 + 2)), 3)
   \<and> MeanCombineFn_extract_output (PyFloat (Finite (10 ^ 16 + 2)), 3)
       = Inr (PyFloat (Finite 3333333333333334))
   \<and> MeanCombineFn_accumulate [PyFloat (Finite (10 ^ 16)), PyFloat (Finite 1), PyFloat (Finite 1)]
       = Inr (PyFloat (Finite (10 ^ 16)), 3)
   \<and> MeanCombineFn_extract_output (PyFloat (Finite (10 ^ 16)), 3)
       = Inr (PyFloat (Finite (6666666666666667 / 2)))"
proof -
  have i0: "double_of_int 0 = Inr (Finite 0)" and i3: "double_of_int 3 = Inr (Finite 3)"
    using double_of_int_exact [of 0] double_of_int_exact [of 3] by simp_all
  have r1: "round_double 1 = Finite 1" and r2: "round_double 2 = Finite 2"
    using round_double_int [of 1] round_double_int [of 2] by simp_all
  have 1: "MeanCombineFn_accumulate [PyInt (2 ^ 1024)] = Inr (PyInt (2 ^ 1024), 1)"
    using Mean_accumulate_int [of "[2 ^ 1024]"] by simp
  have 2: "MeanCombineFn_extract_output (PyInt (2 ^ 1024), 1) = Inl OverflowError"
    using Mean_extract_int_overflow [of 1 "2 ^ 1024"] by simp
  have 3: "MeanCombineFn_accumulate [PyFloat (Finite (10 ^ 16))]
      = Inr (PyFloat (Finite (10 ^ 16)), 1)"
    using i0 round_double_1e16
    by (simp add: MeanCombineFn_accumulate_def MeanCombineFn_create_accumulator_def
        MeanCombineFn_add_input_def py_add_def to_double_def)
  have 4: "MeanCombineFn_accumulate [PyFloat (Finite 1), PyFloat (Finite 1)]
      = Inr (PyFloat (Finite 2), 2)"
    using i0 r1 r2
    by (simp add: MeanCombineFn_accumulate_def MeanCombineFn_create_accumulator_def
        MeanCombineFn_add_input_def py_add_def to_double_def)
  have 5: "MeanCombineFn_merge_accumulators
        [(PyFloat (Finite (10 ^ 16)), 1), (PyFloat (Finite 2), 2)]
      = Inr (PyFloat (Finite (10 ^ 16 + 2)), 3)"
    using i0 round_double_1e16 round_double_1e16_plus_2
    by (simp add: MeanCombineFn_merge_accumulators_def py_add_def to_double_def)
  have 6: "MeanCombineFn_extract_output (PyFloat (Finite (10 ^ 16 + 2)), 3)
      = Inr (PyFloat (Finite 3333333333333334))"
    using i3 round_double_1e16_plus_2_div_3
    by (simp add: MeanCombineFn_extract_output_def py_div_def to_double_def)
  have 7: "MeanCombineFn_accumulate
        [PyFloat (Finite (10 ^ 16)), PyFloat (Finite 1), PyFloat (Finite 1)]
      = Inr (PyFloat (Finite (10 ^ 16)), 3)"
    using i0 round_double_1e16 round_double_1e16_plus_1
    by (simp add: MeanCombineFn_accumulate_def MeanCombineFn_create_accumulator_def
        MeanCombineFn_add_input_def py_add_def to_double_def)
  have 8: "MeanCombineFn_extract_output (PyFloat (Finite (10 ^ 16)), 3)
      = Inr (PyFloat (Finite (6666666666666667 / 2)))"
    using i3 round_double_1e16_div_3
    by (simp add: MeanCombineFn_extract_output_def py_div_def to_double_def)
  show ?thesis
    using 1 2 3 4 5 6 7 8 by (simp only: simp_thms)
qed

text \<open>
  Claim C6, restricted to integer inputs and with the float division of \<open>extract_output\<close>
  taken into account. Extracting from the empty accumulator yields not-a-number and does
  not raise. The accumulator of an integer stream is its exact sum and its length. For a
  non-empty stream \<open>extract_output\<close> raises \<open>OverflowError\<close> exactly when the sum or the
  length is too large for a double; otherwise it returns the correctly rounded quotient of
  the doubles nearest to the sum and to the length, which is the correctly rounded mean
  when both are at most \<open>2 ^ 53\<close> in magnitude, and the mean itself when the mean is then
  an integer (4.0 for 2, 4, 6). Merging the accumulators of any non-empty sequence of
  integer sub-streams is the accumulator of their concatenation.
\<close>

theorem Mean_combiner_integer_inputs:
  "MeanCombineFn_extract_output MeanCombineFn_create_accumulator = Inr (PyFloat NaN)
   \<and> MeanCombineFn_accumulate (map PyInt xs) = Inr (PyInt (sum_list xs), int (length xs))
   \<and> (xs \<noteq> [] \<longrightarrow>
        (MeanCombineFn_extract_output (PyInt (sum_list xs), int (length xs)) = Inl OverflowError
           \<longleftrightarrow> 2 ^ 1024 - 2 ^ 970 \<le> \<bar>sum_list xs\<bar>
                \<or> 2 ^ 1024 - 2 ^ 970 \<le> int (length xs)))
   \<and> (xs \<noteq> [] \<and> \<bar>sum_list xs\<bar> < 2 ^ 1024 - 2 ^ 970
         \<and> int (length xs) < 2 ^ 1024 - 2 ^ 970 \<longrightarrow>
        (\<exists>fs fn. double_of_int (sum_list xs) = Inr (Finite fs)
           \<and> double_of_int (int (length xs)) = Inr (Finite fn)
           \<and> MeanCombineFn_extract_output (PyInt (sum_list xs), int (length xs))
               = Inr (PyFloat (round_double (fs / fn)))))
   \<and> (xs \<noteq> [] \<and> \<bar>sum_list xs\<bar> \<le> 2 ^ 53 \<and> int (length xs) \<le> 2 ^ 53 \<longrightarrow>
        MeanCombineFn_extract_output (PyInt (sum_list xs), int (length xs))
          = Inr (PyFloat (round_double (of_int (sum_list xs) / of_int (int (length xs))))))
   \<and> (xs \<noteq> [] \<and> \<bar>sum_list xs\<bar> \<le> 2 ^ 53 \<and> int (length xs) \<le> 2 ^ 53
         \<and> sum_list xs = m * int (length xs) \<longrightarrow>
        MeanCombineFn_extract_output (PyInt (sum_list xs), int (length xs))
          = Inr (PyFloat (Finite (of_int m))))
   \<and> (xss \<noteq> [] \<longrightarrow>
        MeanCombineFn_merge_accumulators
            (map (\<lambda>ys. (PyInt (sum_list ys), int (length ys))) xss)
          = MeanCombineFn_accumulate (map PyInt (concat xss)))"
proof -
  let ?s = "sum_list xs" and ?n = "int (length xs)"
  let ?acc = "(PyInt ?s, ?n)"
  have n: "xs \<noteq> [] \<Longrightarrow> ?n \<noteq> 0" by simp
  have a0: "MeanCombineFn_extract_output MeanCombineFn_create_accumulator = Inr (PyFloat NaN)"
    by (simp add: MeanCombineFn_extract_output_def MeanCombineFn_create_accumulator_def)
  have a1: "MeanCombineFn_accumulate (map PyInt xs) = Inr ?acc"
    by (rule Mean_accumulate_int)
  have a2: "xs \<noteq> [] \<longrightarrow>
       (MeanCombineFn_extract_output ?acc = Inl OverflowError
          \<longleftrightarrow> 2 ^ 1024 - 2 ^ 970 \<le> \<bar>?s\<bar> \<or> 2 ^ 1024 - 2 ^ 970 \<le> ?n)"
    using Mean_extract_int_overflow [of ?n ?s] n by simp
  have a3: "xs \<noteq> [] \<and> \<bar>?s\<bar> < 2 ^ 1024 - 2 ^ 970 \<and> ?n < 2 ^ 1024 - 2 ^ 970 \<longrightarrow>
       (\<exists>fs fn. double_of_int ?s = Inr (Finite fs) \<and> double_of_int ?n = Inr (Finite fn)
          \<and> MeanCombineFn_extract_output ?acc = Inr (PyFloat (round_double (fs / fn))))"
    using Mean_extract_int_finite [of ?n ?s] n by simp
  have a4: "xs \<noteq> [] \<and> \<bar>?s\<bar> \<le> 2 ^ 53 \<and> ?n \<le> 2 ^ 53 \<longrightarrow>
       MeanCombineFn_extract_output ?acc
         = Inr (PyFloat (round_double (of_int ?s / of_int ?n)))"
    using Mean_extract_int_exact [of ?n ?s] n by simp
  have a5: "xs \<noteq> [] \<and> \<bar>?s\<bar> \<le> 2 ^ 53 \<and> ?n \<le> 2 ^ 53 \<and> ?s = m * ?n \<longrightarrow>
       MeanCombineFn_extract_output ?acc = Inr (PyFloat (Finite (of_int m)))"
  proof (intro impI, elim conjE)
    assume h: "xs \<noteq> []" "\<bar>?s\<bar> \<le> 2 ^ 53" "?n \<le> 2 ^ 53" "?s = m * ?n"
    have n1: "1 \<le> ?n" using h(1) by (cases xs) simp_all
    have "\<bar>m\<bar> * 1 \<le> \<bar>m\<bar> * ?n"
      using n1 by (intro mult_left_mono) simp_all
    also have "\<dots> = \<bar>?s\<bar>"
      unfolding h(4) by (simp add: abs_mult)
    finally have m: "\<bar>m\<bar> \<le> 2 ^ 53" using h(2) by simp
    have n0: "(of_int ?n :: rat) \<noteq> 0"
      using h(1) by simp
    have "(of_int ?s :: rat) / of_int ?n = of_int m"
      unfolding h(4) of_int_mult using n0 by simp
    then show "MeanCombineFn_extract_output ?acc = Inr (PyFloat (Finite (of_int m)))"
      using a4 h round_double_int [OF m] by simp
  qed
  have a6: "xss \<noteq> [] \<longrightarrow>
        MeanCombineFn_merge_accumulators
            (map (\<lambda>ys. (PyInt (sum_list ys), int (length ys))) xss)
          = MeanCombineFn_accumulate (map PyInt (concat xss))"
    by (simp add: Mean_merge_int Mean_accumulate_int)
  show ?thesis
    using a0 a1 a2 a3 a4 a5 a6 by (intro conjI)
qed

theorem Mean_combiner_integer_inputs_witness:
  "MeanCombineFn_accumulate (map PyInt [2, 4, 6]) = Inr (PyInt 12, 3)
   \<and> MeanCombineFn_extract_output (PyInt 12, 3) = Inr (PyFloat (Finite 4))
   \<and> MeanCombineFn_merge_accumulators [(PyInt 6, 2), (PyInt 6, 1)]
       = MeanCombineFn_accumulate (map PyInt [2, 4, 6])"
proof -
  note t = Mean_combiner_integer_inputs [of "[2, 4, 6]" 4 "[[2, 4], [6]]"]
  have a: "MeanCombineFn_accumulate (map PyInt [2, 4, 6]) = Inr (PyInt 12, 3)"
    using t [THEN conjunct2, THEN conjunct1] by simp
  have b: "MeanCombineFn_extract_output (PyInt 12, 3) = Inr (PyFloat (Finite 4))"
    using t [THEN conjunct2, THEN conjunct2, THEN conjunct2, THEN conjunct2, THEN conjunct2,
        THEN conjunct1]
    by simp
  have c: "MeanCombineFn_merge_accumulators [(PyInt 6, 2), (PyInt 6, 1)]
       = MeanCombineFn_accumulate (map PyInt [2, 4, 6])"
    using t [THEN conjunct2, THEN conjunct2, THEN conjunct2, THEN conjunct2, THEN conjunct2,
        THEN conjunct2]
    by simp
  show ?thesis using a b c by (simp only: simp_thms)
qed

section \<open>The local graph executor (runners/direct_runner.py)\<close>

subsection \<open>Values, windows and the cache\<close>

text \<open>
  Modelled from the spec: the windowed value (\<open>transforms/window.py\<close> is not among the
  sources), "an immutable pair of (payload value, window assignment)"; the single
  global window is what \<open>GlobalWindows.WindowedValue\<close> assigns.
\<close>

datatype window = GlobalWindow | OtherWindow nat

text \<open>
  Python objects flowing through the executor. \<open>Atom\<close> is an object that is not
  iterable (a number, \<open>None\<close>, an instance of a user class); \<open>Seq\<close> is a sized iterable
  other than a tuple (a list, a string), given by its items; \<open>Tuple\<close> is a tuple;
  \<open>Generator\<close> is an iterable without a length (a generator, an iterator), given by the
  items it yields; \<open>EmptySideInput\<close> is an instance of the marker class
  \<open>pvalue.EmptySideInput\<close>; \<open>WindowedValue\<close> is a windowed value with its payload and its
  windows, itself neither iterable nor sized.
\<close>

datatype 'a pyobj =
    Atom 'a
  | Seq "'a pyobj list"
  | Tuple "'a pyobj list"
  | Generator "'a pyobj list"
  | EmptySideInput
  | WindowedValue "'a pyobj" "window list"

text \<open>
  \<open>sized_items x\<close> is the items of an object that \<open>len(x)\<close> and \<open>x[i]\<close> accept;
  \<open>iter_items x\<close> is the items a \<open>for\<close> loop over \<open>x\<close> visits. Both raise \<open>TypeError\<close> on
  other objects. \<open>is_iterable x\<close> is the test \<open>isinstance(x, collections.Iterable)\<close>.
\<close>

fun sized_items :: "'a pyobj \<Rightarrow> error + 'a pyobj list" where
  "sized_items (Seq xs) = Inr xs"
| "sized_items (Tuple xs) = Inr xs"
| "sized_items x = Inl TypeError"

fun iter_items :: "'a pyobj \<Rightarrow> error + 'a pyobj list" where
  "iter_items (Seq xs) = Inr xs"
| "iter_items (Tuple xs) = Inr xs"
| "iter_items (Generator xs) = Inr xs"
| "iter_items x = Inl TypeError"

fun is_iterable :: "'a pyobj \<Rightarrow> bool" where
  "is_iterable (Seq xs) = True"
| "is_iterable (Tuple xs) = True"
| "is_iterable (Generator xs) = True"
| "is_iterable x = False"

definition GlobalWindows_WindowedValue :: "'a pyobj \<Rightarrow> 'a pyobj" where
  "GlobalWindows_WindowedValue v = WindowedValue v [GlobalWindow]"

text \<open>The attribute access \<open>wv.value\<close>.\<close>

fun value_of :: "'a pyobj \<Rightarrow> error + 'a pyobj" where
  "value_of (WindowedValue v ws) = Inr v"
| "value_of x = Inl AttributeError"

text \<open>The list comprehension \<open>[v.value for v in values]\<close> over the items of a list.\<close>

fun values_of :: "'a pyobj list \<Rightarrow> error + 'a pyobj list" where
  "values_of [] = Inr []"
| "values_of (x # xs) =
     (case value_of x of
        Inl e \<Rightarrow> Inl e
      | Inr v \<Rightarrow> (case values_of xs of Inl e \<Rightarrow> Inl e | Inr vs \<Rightarrow> Inr (v # vs)))"

text \<open>
  Modelled from the spec: the collection cache \<open>PValueCache\<close> (\<open>runners/runner.py\<close> is
  not among the sources), "a mapping from (node, optional output tag) to the
  materialized ordered sequence of windowed values it produced". A node is named by its
  full label. Looking up a missing entry raises \<open>KeyError\<close>, which is what
  \<open>DirectPipelineRunner.get_pvalue\<close> catches.
\<close>

type_synonym cache_key = "string \<times> string option"

type_synonym 'a pvalue_cache = "cache_key \<rightharpoonup> 'a pyobj"

definition is_cached :: "'a pvalue_cache \<Rightarrow> cache_key \<Rightarrow> bool" where
  "is_cached c k = (c k \<noteq> None)"

definition get_pvalue :: "'a pvalue_cache \<Rightarrow> cache_key \<Rightarrow> error + 'a pyobj" where
  "get_pvalue c k = (case c k of None \<Rightarrow> Inl KeyError | Some v \<Rightarrow> Inr v)"

definition cache_output :: "'a pvalue_cache \<Rightarrow> cache_key \<Rightarrow> 'a pyobj \<Rightarrow> 'a pvalue_cache" where
  "cache_output c k v = c(k \<mapsto> v)"

subsection \<open>Transform nodes and the runner state\<close>

text \<open>
  A view is one of the three classes the executor tests for, or any other view class.
  A transform carries what its evaluation rule reads from it: the view, the coder of the
  grouping key (\<open>encode\<close>, \<open>decode\<close>), the literal values of \<open>Create\<close>, the elements the
  reader of a source yields.
\<close>

datatype 'a view =
    SingletonPCollectionView bool "'a pyobj"
  | IterablePCollectionView
  | ListPCollectionView
  | OtherPCollectionView

datatype 'a transform =
    CreatePCollectionView "'a view"
  | GroupByKeyOnly "'a pyobj \<Rightarrow> string" "string \<Rightarrow> 'a pyobj"
  | Create "'a pyobj list"
  | Flatten
  | Read "'a pyobj list"
  | OtherTransform

record 'a transform_node =
  full_label :: string
  inputs :: "cache_key list"
  transform :: "'a transform"

definition node_key :: "'a transform_node \<Rightarrow> cache_key" where
  "node_key n = (full_label n, None)"

text \<open>
  The state of a \<open>DirectPipelineRunner\<close>: the cache, the debug element counts
  (a \<open>collections.Counter\<close>, which reads 0 for a key never written) and the counter
  registry.
\<close>

record 'a runner =
  cache :: "'a pvalue_cache"
  element_counts :: "cache_key \<Rightarrow> int"
  runner_counter_factory :: counter_factory

definition count_elements :: "'a runner \<Rightarrow> cache_key \<Rightarrow> int \<Rightarrow> 'a runner" where
  "count_elements self k n = self\<lparr>element_counts := (element_counts self)(k := element_counts self k + n)\<rparr>"

text \<open>The decorator \<open>skip_if_cached\<close>; logging is not part of the state.\<close>

definition skip_if_cached ::
    "('a runner \<Rightarrow> 'a transform_node \<Rightarrow> error + 'a runner)
       \<Rightarrow> 'a runner \<Rightarrow> 'a transform_node \<Rightarrow> error + 'a runner" where
  "skip_if_cached func self pvalue =
     (if is_cached (cache self) (node_key pvalue) then Inr self else func self pvalue)"

text \<open>\<open>transform_node.inputs[0]\<close>.\<close>

definition first_input :: "'a transform_node \<Rightarrow> error + cache_key" where
  "first_input n = (case inputs n of [] \<Rightarrow> Inl IndexError | k # ks \<Rightarrow> Inr k)"

subsection \<open>Side-input views\<close>

text \<open>The value a view materialises to, from the cached value of the input.\<close>

definition view_result :: "'a view \<Rightarrow> 'a pyobj \<Rightarrow> error + 'a pyobj" where
  "view_result view values =
     (case view of
        SingletonPCollectionView has_default default_value \<Rightarrow>
          (case sized_items values of
             Inl e \<Rightarrow> Inl e
           | Inr vs \<Rightarrow>
               if length vs = 0
               then (if has_default then Inr default_value else Inr EmptySideInput)
               else if length vs = 1 then value_of (vs ! 0)
               else Inl ValueError)
      | IterablePCollectionView \<Rightarrow>
          (case iter_items values of
             Inl e \<Rightarrow> Inl e
           | Inr vs \<Rightarrow> (case values_of vs of Inl e \<Rightarrow> Inl e | Inr r \<Rightarrow> Inr (Seq r)))
      | ListPCollectionView \<Rightarrow>
          (case iter_items values of
             Inl e \<Rightarrow> Inl e
           | Inr vs \<Rightarrow> (case values_of vs of Inl e \<Rightarrow> Inl e | Inr r \<Rightarrow> Inr (Seq r)))
      | OtherPCollectionView \<Rightarrow> Inl NotImplementedError)"

definition CreatePCollectionView_body :: "'a runner \<Rightarrow> 'a transform_node \<Rightarrow> error + 'a runner" where
  "CreatePCollectionView_body self transform_node =
     (case transform transform_node of
        CreatePCollectionView view \<Rightarrow>
          (case first_input transform_node of
             Inl e \<Rightarrow> Inl e
           | Inr input0 \<Rightarrow>
               (case get_pvalue (cache self) input0 of
                  Inl e \<Rightarrow> Inl e
                | Inr values \<Rightarrow>
                    (case view_result view values of
                       Inl e \<Rightarrow> Inl e
                     | Inr result \<Rightarrow>
                         Inr (self\<lparr>cache :=
                                cache_output (cache self) (node_key transform_node) result\<rparr>))))
      | _ \<Rightarrow> Inl AttributeError)"

definition run_CreatePCollectionView :: "'a runner \<Rightarrow> 'a transform_node \<Rightarrow> error + 'a runner" where
  "run_CreatePCollectionView = skip_if_cached CreatePCollectionView_body"

subsection \<open>Grouping by key\<close>

text \<open>
  \<open>result_dict\<close> is a \<open>defaultdict(list)\<close>: an association list with distinct keys, a new
  key entering at the end. \<open>dict_append d k v\<close> is \<open>d[k].append(v)\<close>.
\<close>

fun dict_append :: "('k \<times> 'v list) list \<Rightarrow> 'k \<Rightarrow> 'v \<Rightarrow> ('k \<times> 'v list) list" where
  "dict_append [] k v = [(k, [v])]"
| "dict_append ((k', vs) # d) k v =
     (if k' = k then (k', vs @ [v]) # d else (k', vs) # dict_append d k v)"

text \<open>
  The order in which a Python 2 dictionary is iterated is not the insertion order; it
  depends on the hashes of the keys. The parameter \<open>hash_order\<close> ranks the keys, and
  \<open>iteritems\<close> lists the entries by rank (entries of equal rank in insertion order), so
  that every order of the entries is the iteration order for some \<open>hash_order\<close>.
\<close>

definition iteritems :: "('k \<Rightarrow> nat) \<Rightarrow> ('k \<times> 'v) list \<Rightarrow> ('k \<times> 'v) list" where
  "iteritems hash_order d = sort_key (\<lambda>kv. hash_order (fst kv)) d"

text \<open>
  The statement \<open>raise TypeCheckError('... Instead received: %r.' % wv)\<close>. The message is
  formatted before the exception is constructed, and the operator \<open>%\<close> takes a tuple on
  its right as the sequence of its arguments: for a tuple \<open>wv\<close> that does not have exactly
  one item, the formatting raises \<open>TypeError\<close>, and that is the exception that leaves
  the loop.
\<close>

fun raise_TypeCheckError :: "'a pyobj \<Rightarrow> error" where
  "raise_TypeCheckError (Tuple xs) = (if length xs = 1 then TypeCheckError else TypeError)"
| "raise_TypeCheckError wv = TypeCheckError"

text \<open>
  The loop over the input of \<open>run_GroupByKeyOnly\<close>. The condition is evaluated from left
  to right: \<open>len(wv.value)\<close> is reached for every iterable payload and raises \<open>TypeError\<close>
  when the payload has no length.
\<close>

fun group_values ::
    "('a pyobj \<Rightarrow> string) \<Rightarrow> (string \<times> 'a pyobj list) list \<Rightarrow> 'a pyobj list
       \<Rightarrow> error + (string \<times> 'a pyobj list) list" where
  "group_values encode result_dict [] = Inr result_dict"
| "group_values encode result_dict (wv # rest) =
     (case wv of
        WindowedValue val ws \<Rightarrow>
          if is_iterable val
          then (case sized_items val of
                  Inl e \<Rightarrow> Inl e
                | Inr kv \<Rightarrow>
                    if length kv = 2
                    then group_values encode
                           (dict_append result_dict (encode (kv ! 0)) (kv ! 1)) rest
                    else Inl (raise_TypeCheckError wv))
          else Inl (raise_TypeCheckError wv)
      | _ \<Rightarrow> Inl (raise_TypeCheckError wv))"

definition GroupByKeyOnly_body ::
    "(string \<Rightarrow> nat) \<Rightarrow> 'a runner \<Rightarrow> 'a transform_node \<Rightarrow> error + 'a runner" where
  "GroupByKeyOnly_body hash_order self transform_node =
     (case transform transform_node of
        GroupByKeyOnly encode decode \<Rightarrow>
          (case first_input transform_node of
             Inl e \<Rightarrow> Inl e
           | Inr input0 \<Rightarrow>
               (case get_pvalue (cache self) input0 of
                  Inl e \<Rightarrow> Inl e
                | Inr values \<Rightarrow>
                    (case iter_items values of
                       Inl e \<Rightarrow> Inl e
                     | Inr wvs \<Rightarrow>
                         (case group_values encode [] wvs of
                            Inl e \<Rightarrow> Inl e
                          | Inr result_dict \<Rightarrow>
                              (let gbk_result =
                                     map (\<lambda>kv. GlobalWindows_WindowedValue
                                                  (Tuple [decode (fst kv), Seq (snd kv)]))
                                       (iteritems hash_order result_dict);
                                   self1 = count_elements self (node_key transform_node)
                                             (int (length gbk_result))
                               in Inr (self1\<lparr>cache :=
                                         cache_output (cache self1) (node_key transform_node)
                                           (Seq gbk_result)\<rparr>))))))
      | _ \<Rightarrow> Inl AttributeError)"

definition run_GroupByKeyOnly ::
    "(string \<Rightarrow> nat) \<Rightarrow> 'a runner \<Rightarrow> 'a transform_node \<Rightarrow> error + 'a runner" where
  "run_GroupByKeyOnly hash_order = skip_if_cached (GroupByKeyOnly_body hash_order)"

subsection \<open>Create, Flatten and Read\<close>

definition Create_body :: "'a runner \<Rightarrow> 'a transform_node \<Rightarrow> error + 'a runner" where
  "Create_body self transform_node =
     (case transform transform_node of
        Create vs \<Rightarrow>
          (let create_result = map GlobalWindows_WindowedValue vs;
               self1 = count_elements self (node_key transform_node)
                         (int (length create_result))
           in Inr (self1\<lparr>cache :=
                     cache_output (cache self1) (node_key transform_node) (Seq create_result)\<rparr>))
      | _ \<Rightarrow> Inl AttributeError)"

definition run_Create :: "'a runner \<Rightarrow> 'a transform_node \<Rightarrow> error + 'a runner" where
  "run_Create = skip_if_cached Create_body"

text \<open>\<open>itertools.chain.from_iterable\<close> over the cached values of all inputs.\<close>

fun chain_inputs :: "'a pvalue_cache \<Rightarrow> cache_key list \<Rightarrow> error + 'a pyobj list" where
  "chain_inputs c [] = Inr []"
| "chain_inputs c (pc # pcs) =
     (case get_pvalue c pc of
        Inl e \<Rightarrow> Inl e
      | Inr values \<Rightarrow>
          (case iter_items values of
             Inl e \<Rightarrow> Inl e
           | Inr xs \<Rightarrow>
               (case chain_inputs c pcs of Inl e \<Rightarrow> Inl e | Inr ys \<Rightarrow> Inr (xs @ ys))))"

definition Flatten_body :: "'a runner \<Rightarrow> 'a transform_node \<Rightarrow> error + 'a runner" where
  "Flatten_body self transform_node =
     (case chain_inputs (cache self) (inputs transform_node) of
        Inl e \<Rightarrow> Inl e
      | Inr flatten_result \<Rightarrow>
          (let self1 = count_elements self (node_key transform_node)
                         (int (length flatten_result))
           in Inr (self1\<lparr>cache :=
                     cache_output (cache self1) (node_key transform_node)
                       (Seq flatten_result)\<rparr>)))"

definition run_Flatten :: "'a runner \<Rightarrow> 'a transform_node \<Rightarrow> error + 'a runner" where
  "run_Flatten = skip_if_cached Flatten_body"

definition Read_body :: "'a runner \<Rightarrow> 'a transform_node \<Rightarrow> error + 'a runner" where
  "Read_body self transform_node =
     (case transform transform_node of
        Read reader \<Rightarrow>
          (case first_input transform_node of
             Inl e \<Rightarrow> Inl e
           | Inr input0 \<Rightarrow>
               (let read_result = map GlobalWindows_WindowedValue reader;
                    self1 = count_elements self (node_key transform_node)
                              (int (length read_result))
                in Inr (self1\<lparr>cache :=
                          cache_output (cache self1) (node_key transform_node)
                            (Seq read_result)\<rparr>)))
      | _ \<Rightarrow> Inl AttributeError)"

definition run_Read :: "'a runner \<Rightarrow> 'a transform_node \<Rightarrow> error + 'a runner" where
  "run_Read = skip_if_cached Read_body"

section \<open>Properties of the executor\<close>

subsection \<open>Cached nodes are skipped\<close>

lemma skip_if_cached_hit:
  "is_cached (cache self) (node_key n) \<Longrightarrow> skip_if_cached func self n = Inr self"
  by (simp add: skip_if_cached_def)

lemma skip_if_cached_miss:
  "\<not> is_cached (cache self) (node_key n) \<Longrightarrow> skip_if_cached func self n = func self n"
  by (simp add: skip_if_cached_def)

lemma is_cached_cache_output:
  "is_cached (cache_output c k v) k"
  by (simp add: is_cached_def cache_output_def)

lemma CreatePCollectionView_body_caches:
  "CreatePCollectionView_body self n = Inr self1 \<Longrightarrow> is_cached (cache self1) (node_key n)"
  by (auto simp: CreatePCollectionView_body_def is_cached_cache_output
      split: transform.splits sum.splits)

lemma GroupByKeyOnly_body_caches:
  "GroupByKeyOnly_body ho self n = Inr self1 \<Longrightarrow> is_cached (cache self1) (node_key n)"
  by (auto simp: GroupByKeyOnly_body_def is_cached_cache_output Let_def
      split: transform.splits sum.splits pyobj.splits)

lemma Create_body_caches:
  "Create_body self n = Inr self1 \<Longrightarrow> is_cached (cache self1) (node_key n)"
  by (auto simp: Create_body_def is_cached_cache_output Let_def
      split: transform.splits sum.splits)

lemma Flatten_body_caches:
  "Flatten_body self n = Inr self1 \<Longrightarrow> is_cached (cache self1) (node_key n)"
  by (auto simp: Flatten_body_def is_cached_cache_output Let_def
      split: transform.splits sum.splits)

lemma Read_body_caches:
  "Read_body self n = Inr self1 \<Longrightarrow> is_cached (cache self1) (node_key n)"
  by (auto simp: Read_body_def is_cached_cache_output Let_def
      split: transform.splits sum.splits)

lemma skip_if_cached_rerun:
  assumes "\<And>s s1. func s n = Inr s1 \<Longrightarrow> is_cached (cache s1) (node_key n)"
      and "skip_if_cached func self n = Inr self1"
  shows "skip_if_cached func self1 n = Inr self1"
proof (cases "is_cached (cache self) (node_key n)")
  case True
  then have "self1 = self" using assms(2) by (simp add: skip_if_cached_def)
  then show ?thesis using True by (simp add: skip_if_cached_def)
next
  case False
  then have "func self n = Inr self1" using assms(2) by (simp add: skip_if_cached_def)
  then have "is_cached (cache self1) (node_key n)" by (rule assms(1))
  then show ?thesis by (simp add: skip_if_cached_def)
qed

text \<open>
  Claim C4. Every evaluation rule of the runner is its body wrapped by \<open>skip_if_cached\<close>.
  On a node whose output is in the cache, the wrapped rule returns the runner state as it
  is, whatever the body \<open>func\<close> would do: the cache, the debug element counts and the
  counter registry are unchanged. Each rule modelled here caches the output of its node
  when it succeeds, so invoking it again on the state it returned changes nothing.
\<close>

theorem cached_node_is_noop:
  "(is_cached (cache self) (node_key n) \<longrightarrow>
      skip_if_cached func self n = Inr self
    \<and> run_CreatePCollectionView self n = Inr self
    \<and> run_GroupByKeyOnly hash_order self n = Inr self
    \<and> run_Create self n = Inr self
    \<and> run_Flatten self n = Inr self
    \<and> run_Read self n = Inr self)
   \<and> (run_CreatePCollectionView self n = Inr self1 \<longrightarrow> run_CreatePCollectionView self1 n = Inr self1)
   \<and> (run_GroupByKeyOnly hash_order self n = Inr self1 \<longrightarrow> run_GroupByKeyOnly hash_order self1 n = Inr self1)
   \<and> (run_Create self n = Inr self1 \<longrightarrow> run_Create self1 n = Inr self1)
   \<and> (run_Flatten self n = Inr self1 \<longrightarrow> run_Flatten self1 n = Inr self1)
   \<and> (run_Read self n = Inr self1 \<longrightarrow> run_Read self1 n = Inr self1)"
proof (intro conjI impI)
  show "run_CreatePCollectionView self1 n = Inr self1"
    if "run_CreatePCollectionView self n = Inr self1"
    using that unfolding run_CreatePCollectionView_def
    by (rule skip_if_cached_rerun [rotated]) (rule CreatePCollectionView_body_caches)
  show "run_GroupByKeyOnly hash_order self1 n = Inr self1"
    if "run_GroupByKeyOnly hash_order self n = Inr self1"
    using that unfolding run_GroupByKeyOnly_def
    by (rule skip_if_cached_rerun [rotated]) (rule GroupByKeyOnly_body_caches)
  show "run_Create self1 n = Inr self1" if "run_Create self n = Inr self1"
    using that unfolding run_Create_def
    by (rule skip_if_cached_rerun [rotated]) (rule Create_body_caches)
  show "run_Flatten self1 n = Inr self1" if "run_Flatten self n = Inr self1"
    using that unfolding run_Flatten_def
    by (rule skip_if_cached_rerun [rotated]) (rule Flatten_body_caches)
  show "run_Read self1 n = Inr self1" if "run_Read self n = Inr self1"
    using that unfolding run_Read_def
    by (rule skip_if_cached_rerun [rotated]) (rule Read_body_caches)
qed (simp_all add: skip_if_cached_def run_CreatePCollectionView_def run_GroupByKeyOnly_def
      run_Create_def run_Flatten_def run_Read_def)

theorem cached_node_is_noop_witness:
  "is_cached (cache (\<lparr>cache = [(''n'', None) \<mapsto> Seq []], element_counts = (\<lambda>k. 0),
        runner_counter_factory = CounterFactory_init\<rparr> :: nat runner))
      (node_key \<lparr>full_label = ''n'', inputs = [], transform = Create [Atom (1::nat)]\<rparr>)
   \<and> run_Create \<lparr>cache = [(''n'', None) \<mapsto> Seq []], element_counts = (\<lambda>k. 0),
        runner_counter_factory = CounterFactory_init\<rparr>
      \<lparr>full_label = ''n'', inputs = [], transform = Create [Atom (1::nat)]\<rparr>
     = Inr \<lparr>cache = [(''n'', None) \<mapsto> Seq []], element_counts = (\<lambda>k. 0),
        runner_counter_factory = CounterFactory_init\<rparr>"
proof -
  let ?s = "\<lparr>cache = [(''n'', None) \<mapsto> Seq []], element_counts = (\<lambda>k. 0),
        runner_counter_factory = CounterFactory_init\<rparr> :: nat runner"
  let ?n = "\<lparr>full_label = ''n'', inputs = [], transform = Create [Atom (1::nat)]\<rparr>"
  have h: "is_cached (cache ?s) (node_key ?n)"
    by (simp add: is_cached_def node_key_def)
  note skipped = cached_node_is_noop [of ?s ?n, THEN conjunct1, THEN mp, OF h]
  note d = skipped [THEN conjunct2, THEN conjunct2, THEN conjunct2, THEN conjunct1]
  from h d show ?thesis
    by (rule conjI)
qed

subsection \<open>Side-input views\<close>

lemma run_CreatePCollectionView_unfold:
  assumes "\<not> is_cached (cache self) (node_key n)"
      and "transform n = CreatePCollectionView view"
      and "inputs n = input0 # rest"
      and "cache self input0 = Some values"
  shows "run_CreatePCollectionView self n =
     (case view_result view values of
        Inl e \<Rightarrow> Inl e
      | Inr result \<Rightarrow> Inr (self\<lparr>cache := (cache self)(node_key n \<mapsto> result)\<rparr>))"
  using assms
  by (simp add: run_CreatePCollectionView_def skip_if_cached_def CreatePCollectionView_body_def
      first_input_def get_pvalue_def cache_output_def cong: sum.case_cong)

text \<open>
  Claim C5. Let the node of a singleton view be not yet cached and let its input be cached
  as a collection. On the empty collection the rule caches the declared default when
  there is one and the marker \<open>EmptySideInput\<close> otherwise; on a collection of exactly one
  windowed value it caches that value's payload; on two or more elements it raises
  \<open>ValueError\<close> and caches nothing.
\<close>

theorem singleton_view_cases:
  assumes "\<not> is_cached (cache self) (node_key n)"
      and "transform n = CreatePCollectionView (SingletonPCollectionView has_default default_value)"
      and "inputs n = input0 # rest"
      and "cache self input0 = Some (Seq values)"
  shows "(values = [] \<longrightarrow>
            run_CreatePCollectionView self n =
              Inr (self\<lparr>cache := (cache self)(node_key n \<mapsto>
                     (if has_default then default_value else EmptySideInput))\<rparr>))
       \<and> (\<forall>v ws. values = [WindowedValue v ws] \<longrightarrow>
            run_CreatePCollectionView self n =
              Inr (self\<lparr>cache := (cache self)(node_key n \<mapsto> v)\<rparr>))
       \<and> (2 \<le> length values \<longrightarrow> run_CreatePCollectionView self n = Inl ValueError)"
proof -
  have run: "run_CreatePCollectionView self n =
     (case view_result (SingletonPCollectionView has_default default_value) (Seq values) of
        Inl e \<Rightarrow> Inl e
      | Inr result \<Rightarrow> Inr (self\<lparr>cache := (cache self)(node_key n \<mapsto> result)\<rparr>))"
    using assms by (rule run_CreatePCollectionView_unfold)
  show ?thesis
    unfolding run by (auto simp: view_result_def)
qed

lemma values_of_windowed:
  "values_of (map (\<lambda>p. WindowedValue (fst p) (snd p)) vws) = Inr (map fst vws)"
  by (induction vws) simp_all

text \<open>
  Claim C10. On a cached input collection of windowed values, the rule materialises an
  iterable view and a list view to the same value, the list of the payloads in the order
  of the collection; and in every state and on every node the two view kinds lead to the
  same outcome, failures included.
\<close>

theorem iterable_and_list_views_agree:
  assumes "\<not> is_cached (cache self) (node_key n)"
      and "inputs n = input0 # rest"
      and "cache self input0 = Some (Seq (map (\<lambda>p. WindowedValue (fst p) (snd p)) vws))"
  shows "run_CreatePCollectionView self (n\<lparr>transform := CreatePCollectionView IterablePCollectionView\<rparr>)
           = Inr (self\<lparr>cache := (cache self)(node_key n \<mapsto> Seq (map fst vws))\<rparr>)
       \<and> run_CreatePCollectionView self (n\<lparr>transform := CreatePCollectionView ListPCollectionView\<rparr>)
           = Inr (self\<lparr>cache := (cache self)(node_key n \<mapsto> Seq (map fst vws))\<rparr>)
       \<and> run_CreatePCollectionView self' (n'\<lparr>transform := CreatePCollectionView IterablePCollectionView\<rparr>)
           = run_CreatePCollectionView self' (n'\<lparr>transform := CreatePCollectionView ListPCollectionView\<rparr>)"
proof (intro conjI)
  let ?ni = "n\<lparr>transform := CreatePCollectionView IterablePCollectionView\<rparr>"
  let ?nl = "n\<lparr>transform := CreatePCollectionView ListPCollectionView\<rparr>"
  have ki: "node_key ?ni = node_key n" and kl: "node_key ?nl = node_key n"
    by (simp_all add: node_key_def)
  show "run_CreatePCollectionView self ?ni
           = Inr (self\<lparr>cache := (cache self)(node_key n \<mapsto> Seq (map fst vws))\<rparr>)"
    using assms run_CreatePCollectionView_unfold [of self ?ni IterablePCollectionView input0 rest]
    by (simp add: ki view_result_def values_of_windowed)
  show "run_CreatePCollectionView self ?nl
           = Inr (self\<lparr>cache := (cache self)(node_key n \<mapsto> Seq (map fst vws))\<rparr>)"
    using assms run_CreatePCollectionView_unfold [of self ?nl ListPCollectionView input0 rest]
    by (simp add: kl view_result_def values_of_windowed)
  show "run_CreatePCollectionView self' (n'\<lparr>transform := CreatePCollectionView IterablePCollectionView\<rparr>)
           = run_CreatePCollectionView self' (n'\<lparr>transform := CreatePCollectionView ListPCollectionView\<rparr>)"
    by (simp add: run_CreatePCollectionView_def skip_if_cached_def CreatePCollectionView_body_def
        first_input_def node_key_def view_result_def cong: sum.case_cong)
qed

theorem singleton_view_cases_witness:
  "run_CreatePCollectionView
      (\<lparr>cache = [(''in'', None) \<mapsto> Seq []], element_counts = (\<lambda>k. 0),
        runner_counter_factory = CounterFactory_init\<rparr> :: nat runner)
      \<lparr>full_label = ''view'', inputs = [(''in'', None)],
        transform = CreatePCollectionView (SingletonPCollectionView False (Atom 0))\<rparr>
     = Inr \<lparr>cache = [(''in'', None) \<mapsto> Seq [], (''view'', None) \<mapsto> EmptySideInput],
            element_counts = (\<lambda>k. 0), runner_counter_factory = CounterFactory_init\<rparr>
   \<and> run_CreatePCollectionView
      (\<lparr>cache = [(''in'', None) \<mapsto> Seq [WindowedValue (Atom 7) [GlobalWindow]]],
        element_counts = (\<lambda>k. 0), runner_counter_factory = CounterFactory_init\<rparr> :: nat runner)
      \<lparr>full_label = ''view'', inputs = [(''in'', None)],
        transform = CreatePCollectionView (SingletonPCollectionView True (Atom 0))\<rparr>
     = Inr \<lparr>cache = [(''in'', None) \<mapsto> Seq [WindowedValue (Atom 7) [GlobalWindow]],
                     (''view'', None) \<mapsto> Atom 7],
            element_counts = (\<lambda>k. 0), runner_counter_factory = CounterFactory_init\<rparr>
   \<and> run_CreatePCollectionView
      (\<lparr>cache = [(''in'', None) \<mapsto> Seq [WindowedValue (Atom 7) [GlobalWindow],
                                          WindowedValue (Atom 8) [GlobalWindow]]],
        element_counts = (\<lambda>k. 0), runner_counter_factory = CounterFactory_init\<rparr> :: nat runner)
      \<lparr>full_label = ''view'', inputs = [(''in'', None)],
        transform = CreatePCollectionView (SingletonPCollectionView True (Atom 0))\<rparr>
     = Inl ValueError"
proof (intro conjI)
  let ?n0 = "\<lparr>full_label = ''view'', inputs = [(''in'', None)],
        transform = CreatePCollectionView (SingletonPCollectionView False (Atom (0::nat)))\<rparr>"
  let ?n1 = "\<lparr>full_label = ''view'', inputs = [(''in'', None)],
        transform = CreatePCollectionView (SingletonPCollectionView True (Atom (0::nat)))\<rparr>"
  let ?s0 = "\<lparr>cache = [(''in'', None) \<mapsto> Seq []], element_counts = (\<lambda>k. 0),
        runner_counter_factory = CounterFactory_init\<rparr> :: nat runner"
  let ?s1 = "\<lparr>cache = [(''in'', None) \<mapsto> Seq [WindowedValue (Atom 7) [GlobalWindow]]],
        element_counts = (\<lambda>k. 0), runner_counter_factory = CounterFactory_init\<rparr> :: nat runner"
  let ?s2 = "\<lparr>cache = [(''in'', None) \<mapsto> Seq [WindowedValue (Atom 7) [GlobalWindow],
                                          WindowedValue (Atom 8) [GlobalWindow]]],
        element_counts = (\<lambda>k. 0), runner_counter_factory = CounterFactory_init\<rparr> :: nat runner"
  have a0: "\<not> is_cached (cache ?s0) (node_key ?n0)"
    by (simp add: is_cached_def node_key_def)
  have a1: "\<not> is_cached (cache ?s1) (node_key ?n1)"
    by (simp add: is_cached_def node_key_def)
  have a2: "\<not> is_cached (cache ?s2) (node_key ?n1)"
    by (simp add: is_cached_def node_key_def)
  have b0: "transform ?n0 = CreatePCollectionView (SingletonPCollectionView False (Atom 0))"
    by simp
  have b1: "transform ?n1 = CreatePCollectionView (SingletonPCollectionView True (Atom 0))"
    by simp
  have c0: "inputs ?n0 = (''in'', None) # []" and c1: "inputs ?n1 = (''in'', None) # []"
    by simp_all
  have d0: "cache ?s0 (''in'', None) = Some (Seq [])"
    by simp
  have d1: "cache ?s1 (''in'', None) = Some (Seq [WindowedValue (Atom 7) [GlobalWindow]])"
    by simp
  have d2: "cache ?s2 (''in'', None) = Some (Seq [WindowedValue (Atom 7) [GlobalWindow],
       WindowedValue (Atom 8) [GlobalWindow]])"
    by simp
  note empty = singleton_view_cases [OF a0 b0 c0 d0, THEN conjunct1, THEN mp, OF refl]
  note one = singleton_view_cases [OF a1 b1 c1 d1, THEN conjunct2, THEN conjunct1,
      rule_format, OF refl]
  have two_elements: "2 \<le> length [WindowedValue (Atom (7::nat)) [GlobalWindow],
      WindowedValue (Atom 8) [GlobalWindow]]"
    by simp
  note two = singleton_view_cases [OF a2 b1 c1 d2, THEN conjunct2, THEN conjunct2,
      THEN mp, OF two_elements]
  show "run_CreatePCollectionView ?s0 ?n0
     = Inr \<lparr>cache = [(''in'', None) \<mapsto> Seq [], (''view'', None) \<mapsto> EmptySideInput],
            element_counts = (\<lambda>k. 0), runner_counter_factory = CounterFactory_init\<rparr>"
    using empty by (simp add: node_key_def)
  show "run_CreatePCollectionView ?s1 ?n1
     = Inr \<lparr>cache = [(''in'', None) \<mapsto> Seq [WindowedValue (Atom 7) [GlobalWindow]],
                     (''view'', None) \<mapsto> Atom 7],
            element_counts = (\<lambda>k. 0), runner_counter_factory = CounterFactory_init\<rparr>"
    using one by (simp add: node_key_def)
  show "run_CreatePCollectionView ?s2 ?n1 = Inl ValueError"
    using two by simp
qed

theorem iterable_and_list_views_agree_witness:
  "run_CreatePCollectionView
      (\<lparr>cache = [(''in'', None) \<mapsto> Seq [WindowedValue (Atom 7) [GlobalWindow],
                                          WindowedValue (Atom 8) [GlobalWindow]]],
        element_counts = (\<lambda>k. 0), runner_counter_factory = CounterFactory_init\<rparr> :: nat runner)
      \<lparr>full_label = ''view'', inputs = [(''in'', None)],
        transform = CreatePCollectionView IterablePCollectionView\<rparr>
     = Inr \<lparr>cache = [(''in'', None) \<mapsto> Seq [WindowedValue (Atom 7) [GlobalWindow],
                                          WindowedValue (Atom 8) [GlobalWindow]],
                     (''view'', None) \<mapsto> Seq [Atom 7, Atom 8]],
            element_counts = (\<lambda>k. 0), runner_counter_factory = CounterFactory_init\<rparr>
   \<and> run_CreatePCollectionView
      (\<lparr>cache = [(''in'', None) \<mapsto> Seq [WindowedValue (Atom 7) [GlobalWindow],
                                          WindowedValue (Atom 8) [GlobalWindow]]],
        element_counts = (\<lambda>k. 0), runner_counter_factory = CounterFactory_init\<rparr> :: nat runner)
      \<lparr>full_label = ''view'', inputs = [(''in'', None)],
        transform = CreatePCollectionView ListPCollectionView\<rparr>
     = Inr \<lparr>cache = [(''in'', None) \<mapsto> Seq [WindowedValue (Atom 7) [GlobalWindow],
                                          WindowedValue (Atom 8) [GlobalWindow]],
                     (''view'', None) \<mapsto> Seq [Atom 7, Atom 8]],
            element_counts = (\<lambda>k. 0), runner_counter_factory = CounterFactory_init\<rparr>"
proof -
  let ?n = "\<lparr>full_label = ''view'', inputs = [(''in'', None)],
        transform = OtherTransform\<rparr> :: nat transform_node"
  let ?s = "\<lparr>cache = [(''in'', None) \<mapsto> Seq [WindowedValue (Atom 7) [GlobalWindow],
                                          WindowedValue (Atom 8) [GlobalWindow]]],
        element_counts = (\<lambda>k. 0), runner_counter_factory = CounterFactory_init\<rparr> :: nat runner"
  have a: "\<not> is_cached (cache ?s) (node_key ?n)"
    by (simp add: is_cached_def node_key_def)
  have c: "inputs ?n = (''in'', None) # []"
    by simp
  have d: "cache ?s (''in'', None)
      = Some (Seq (map (\<lambda>p. WindowedValue (fst p) (snd p))
                        [(Atom 7, [GlobalWindow]), (Atom 8, [GlobalWindow])]))"
    by simp
  note both = iterable_and_list_views_agree [OF a c d]
  show ?thesis
    using both [THEN conjunct1] both [THEN conjunct2, THEN conjunct1]
    by (simp add: node_key_def)
qed

subsection \<open>Grouping by key\<close>

text \<open>
  The elements the loop of \<open>run_GroupByKeyOnly\<close> accepts: a windowed value whose payload
  is a list or a tuple of exactly two items. \<open>kv_element (k, v, ws)\<close> is the windowed pair
  \<open>(k, v)\<close>, and \<open>values_for encode kvs e\<close> lists, in arrival order, the values of the
  pairs whose key encodes to \<open>e\<close>. \<open>rejected_with wv\<close> is the exception the loop raises at
  an element it does not accept.
\<close>

fun is_kv_pair :: "'a pyobj \<Rightarrow> bool" where
  "is_kv_pair (WindowedValue (Seq kv) ws) = (length kv = 2)"
| "is_kv_pair (WindowedValue (Tuple kv) ws) = (length kv = 2)"
| "is_kv_pair x = False"

definition kv_element :: "'a pyobj \<times> 'a pyobj \<times> window list \<Rightarrow> 'a pyobj" where
  "kv_element p = WindowedValue (Tuple [fst p, fst (snd p)]) (snd (snd p))"

definition values_for ::
    "('a pyobj \<Rightarrow> string) \<Rightarrow> ('a pyobj \<times> 'a pyobj \<times> window list) list \<Rightarrow> string \<Rightarrow> 'a pyobj list" where
  "values_for encode kvs e = map (\<lambda>p. fst (snd p)) (filter (\<lambda>p. encode (fst p) = e) kvs)"

fun rejected_with :: "'a pyobj \<Rightarrow> error" where
  "rejected_with (WindowedValue (Generator xs) ws) = TypeError"
| "rejected_with wv = raise_TypeCheckError wv"

lemma group_values_accepts:
  assumes "is_kv_pair wv"
  shows "\<exists>k v. group_values encode d (wv # rest) = group_values encode (dict_append d (encode k) v) rest"
proof -
  from assms obtain kv ws where "wv = WindowedValue (Seq kv) ws \<or> wv = WindowedValue (Tuple kv) ws"
      and "length kv = 2"
    by (cases wv rule: is_kv_pair.cases) simp_all
  then have "group_values encode d (wv # rest)
      = group_values encode (dict_append d (encode (kv ! 0)) (kv ! 1)) rest"
    by auto
  then show ?thesis by blast
qed

lemma group_values_rejects_first:
  assumes "\<not> is_kv_pair bad"
  shows "group_values encode d (bad # rest) = Inl (rejected_with bad)"
proof (cases bad)
  case (WindowedValue val ws)
  with assms show ?thesis
    by (cases val) simp_all
qed simp_all

lemma group_values_rejects:
  assumes "list_all is_kv_pair pre" "\<not> is_kv_pair bad"
  shows "group_values encode d (pre @ bad # rest) = Inl (rejected_with bad)"
  using assms(1)
proof (induction pre arbitrary: d)
  case Nil
  show ?case by (simp only: append_Nil group_values_rejects_first [OF assms(2)])
next
  case (Cons wv pre)
  then have "is_kv_pair wv" and pre: "list_all is_kv_pair pre"
    by simp_all
  then obtain k v where "group_values encode d (wv # (pre @ bad # rest))
      = group_values encode (dict_append d (encode k) v) (pre @ bad # rest)"
    using group_values_accepts [of wv encode d "pre @ bad # rest"] by blast
  then show ?case
    using Cons.IH [OF pre] by simp
qed

lemma group_values_ok:
  "group_values encode d (map kv_element kvs)
     = Inr (foldl (\<lambda>d p. dict_append d (encode (fst p)) (fst (snd p))) d kvs)"
  by (induction kvs arbitrary: d) (simp_all add: kv_element_def)

lemma dict_append_keys:
  "map fst (dict_append d k v) = (if k \<in> set (map fst d) then map fst d else map fst d @ [k])"
proof (induction d)
  case Nil
  show ?case by simp
next
  case (Cons x d)
  then show ?case by (cases x) force
qed

lemma dict_append_distinct:
  "distinct (map fst d) \<Longrightarrow> distinct (map fst (dict_append d k v))"
  by (simp add: dict_append_keys)

lemma dict_append_map_of:
  "map_of (dict_append d k v) =
     (map_of d)(k \<mapsto> (case map_of d k of None \<Rightarrow> [] | Some vs \<Rightarrow> vs) @ [v])"
  by (induction d) (auto simp: fun_eq_iff)

lemma values_for_snoc:
  "values_for encode (kvs @ [p]) e
     = values_for encode kvs e @ (if encode (fst p) = e then [fst (snd p)] else [])"
  by (simp add: values_for_def)

lemma values_for_no_key:
  "e \<notin> encode ` fst ` set kvs \<Longrightarrow> values_for encode kvs e = []"
  by (induction kvs) (auto simp: values_for_def)

lemma grouped_invariant:
  "distinct (map fst (foldl (\<lambda>d p. dict_append d (encode (fst p)) (fst (snd p))) [] kvs))
     \<and> (\<forall>e. map_of (foldl (\<lambda>d p. dict_append d (encode (fst p)) (fst (snd p))) [] kvs) e
          = (if e \<in> encode ` fst ` set kvs then Some (values_for encode kvs e) else None))"
proof (induction kvs rule: rev_induct)
  case Nil
  show ?case by simp
next
  case (snoc p kvs)
  let ?r = "foldl (\<lambda>d p. dict_append d (encode (fst p)) (fst (snd p))) [] kvs"
  have d: "distinct (map fst ?r)"
    and m: "\<And>e. map_of ?r e
          = (if e \<in> encode ` fst ` set kvs then Some (values_for encode kvs e) else None)"
    using snoc.IH by simp_all
  have step: "foldl (\<lambda>d p. dict_append d (encode (fst p)) (fst (snd p))) [] (kvs @ [p])
      = dict_append ?r (encode (fst p)) (fst (snd p))"
    by simp
  have "distinct (map fst (dict_append ?r (encode (fst p)) (fst (snd p))))"
    using d by (rule dict_append_distinct)
  moreover have "map_of (dict_append ?r (encode (fst p)) (fst (snd p))) e
      = (if e \<in> encode ` fst ` set (kvs @ [p]) then Some (values_for encode (kvs @ [p]) e)
         else None)" for e
  proof (cases "e = encode (fst p)")
    case True
    show ?thesis
    proof (cases "e \<in> encode ` fst ` set kvs")
      case True
      with \<open>e = encode (fst p)\<close> show ?thesis
        by (simp add: dict_append_map_of m values_for_snoc)
    next
      case False
      with \<open>e = encode (fst p)\<close> show ?thesis
        by (simp add: dict_append_map_of m values_for_snoc values_for_no_key)
    qed
  next
    case False
    then show ?thesis
      by (simp add: dict_append_map_of m values_for_snoc)
  qed
  ultimately show ?case
    unfolding step by blast
qed

lemma grouped_mset:
  "mset (foldl (\<lambda>d p. dict_append d (encode (fst p)) (fst (snd p))) [] kvs)
     = image_mset (\<lambda>e. (e, values_for encode kvs e)) (mset_set (encode ` fst ` set kvs))"
proof -
  let ?r = "foldl (\<lambda>d p. dict_append d (encode (fst p)) (fst (snd p))) [] kvs"
  have d: "distinct (map fst ?r)"
    and m: "\<And>e. map_of ?r e
          = (if e \<in> encode ` fst ` set kvs then Some (values_for encode kvs e) else None)"
    using grouped_invariant [of encode kvs] by simp_all
  have keys: "set (map fst ?r) = encode ` fst ` set kvs"
  proof -
    have "set (map fst ?r) = dom (map_of ?r)" by (simp add: dom_map_of_conv_image_fst)
    also have "\<dots> = encode ` fst ` set kvs" by (auto simp: m dom_def split: if_splits)
    finally show ?thesis .
  qed
  have entry: "(fst x, values_for encode kvs (fst x)) = x" if "x \<in> set ?r" for x
  proof -
    have "map_of ?r (fst x) = Some (snd x)"
      using d that by simp
    moreover have "fst x \<in> encode ` fst ` set kvs"
      using that keys by auto
    ultimately have "values_for encode kvs (fst x) = snd x"
      by (simp add: m)
    then show ?thesis by simp
  qed
  have "map (\<lambda>x. (fst x, values_for encode kvs (fst x))) ?r = ?r"
    using entry by (rule map_idI)
  then have "?r = map (\<lambda>e. (e, values_for encode kvs e)) (map fst ?r)"
    by (simp add: comp_def)
  then have "mset ?r = mset (map (\<lambda>e. (e, values_for encode kvs e)) (map fst ?r))"
    by simp
  also have "\<dots> = image_mset (\<lambda>e. (e, values_for encode kvs e)) (mset (map fst ?r))"
    by (rule mset_map [symmetric, THEN sym])
  also have "mset (map fst ?r) = mset_set (set (map fst ?r))"
    by (rule mset_set_set [OF d, symmetric])
  finally show ?thesis by (simp only: keys)
qed

text \<open>The output group of the encoded key \<open>e\<close>: the decoded key paired with the list of
  the values of that key, wrapped in the global window.\<close>

definition group_of ::
    "('a pyobj \<Rightarrow> string) \<Rightarrow> (string \<Rightarrow> 'a pyobj)
       \<Rightarrow> ('a pyobj \<times> 'a pyobj \<times> window list) list \<Rightarrow> string \<Rightarrow> 'a pyobj" where
  "group_of encode decode kvs e =
     WindowedValue (Tuple [decode e, Seq (values_for encode kvs e)]) [GlobalWindow]"

lemma run_GroupByKeyOnly_unfold:
  assumes "\<not> is_cached (cache self) (node_key n)"
      and "transform n = GroupByKeyOnly encode decode"
      and "inputs n = input0 # rest"
      and "cache self input0 = Some (Seq wvs)"
  shows "run_GroupByKeyOnly hash_order self n =
     (case group_values encode [] wvs of
        Inl e \<Rightarrow> Inl e
      | Inr result_dict \<Rightarrow>
          Inr (self\<lparr>element_counts := (element_counts self)
                       (node_key n := element_counts self (node_key n) + int (length result_dict)),
                    cache := (cache self)(node_key n \<mapsto>
                       Seq (map (\<lambda>kv. WindowedValue (Tuple [decode (fst kv), Seq (snd kv)]) [GlobalWindow])
                              (iteritems hash_order result_dict)))\<rparr>))"
  using assms
  by (simp add: run_GroupByKeyOnly_def skip_if_cached_def GroupByKeyOnly_body_def
      first_input_def get_pvalue_def cache_output_def count_elements_def Let_def
      GlobalWindows_WindowedValue_def iteritems_def cong: sum.case_cong)

text \<open>
  Let the grouping node be not yet cached and its input be cached as a list. If every
  element is a windowed pair \<open>(k, v)\<close>, the rule caches a list of groups that holds, for
  each distinct encoded key, exactly one group: the decoded key paired with that key's
  values in arrival order; this holds for every iteration order of the dictionary.
\<close>

lemma GroupByKeyOnly_groups_of_pairs:
  assumes "\<not> is_cached (cache self) (node_key n)"
      and "transform n = GroupByKeyOnly encode decode"
      and "inputs n = input0 # rest"
      and "cache self input0 = Some (Seq (map kv_element kvs))"
  shows "\<exists>groups.
            run_GroupByKeyOnly hash_order self n =
              Inr (self\<lparr>element_counts := (element_counts self)
                           (node_key n := element_counts self (node_key n) + int (length groups)),
                        cache := (cache self)(node_key n \<mapsto> Seq groups)\<rparr>)
          \<and> mset groups =
              image_mset (group_of encode decode kvs) (mset_set (encode ` fst ` set kvs))"
proof -
  note run = run_GroupByKeyOnly_unfold [OF assms, of hash_order]
  let ?r = "foldl (\<lambda>d p. dict_append d (encode (fst p)) (fst (snd p))) [] kvs"
  let ?mk = "\<lambda>kv. WindowedValue (Tuple [decode (fst kv), Seq (snd kv)]) [GlobalWindow]"
  let ?groups = "map ?mk (iteritems hash_order ?r)"
  have gv: "group_values encode [] (map kv_element kvs) = Inr ?r"
    by (rule group_values_ok)
  have len: "length ?groups = length ?r"
    by (simp add: iteritems_def)
  have 1: "run_GroupByKeyOnly hash_order self n =
      Inr (self\<lparr>element_counts := (element_counts self)
                   (node_key n := element_counts self (node_key n) + int (length ?groups)),
                cache := (cache self)(node_key n \<mapsto> Seq ?groups)\<rparr>)"
    unfolding len by (simp add: run gv)
  have "mset ?groups = image_mset ?mk (mset ?r)"
    by (simp add: iteritems_def)
  also have "\<dots> = image_mset ?mk
      (image_mset (\<lambda>e. (e, values_for encode kvs e)) (mset_set (encode ` fst ` set kvs)))"
    by (simp only: grouped_mset)
  also have "\<dots> = image_mset (group_of encode decode kvs) (mset_set (encode ` fst ` set kvs))"
    by (simp add: multiset.map_comp comp_def group_of_def [abs_def])
  finally have 2: "mset ?groups
      = image_mset (group_of encode decode kvs) (mset_set (encode ` fst ` set kvs))" .
  from 1 2 show ?thesis
    by (intro exI [of _ ?groups] conjI)
qed

text \<open>
  At the first element that is not such a pair the rule raises and caches nothing. The
  exception is \<open>TypeCheckError\<close> unless the element is a tuple that does not have exactly
  one item, or a windowed value whose payload is iterable but has no length: then it is
  \<open>TypeError\<close>.
\<close>

lemma GroupByKeyOnly_rejects:
  assumes "\<not> is_cached (cache self) (node_key n)"
      and "transform n = GroupByKeyOnly encode decode"
      and "inputs n = input0 # rest"
      and "cache self input0 = Some (Seq (pre @ bad # more_wvs))"
      and "list_all is_kv_pair pre"
      and "\<not> is_kv_pair bad"
  shows "run_GroupByKeyOnly hash_order self n = Inl (rejected_with bad)"
  using run_GroupByKeyOnly_unfold [OF assms(1-4), of hash_order]
    group_values_rejects [OF assms(5,6), of encode "[]" more_wvs]
  by simp

lemma rejected_with_cases:
  "rejected_with wv = TypeCheckError \<or> rejected_with wv = TypeError"
  "rejected_with wv = TypeError \<longleftrightarrow>
     (\<exists>xs. wv = Tuple xs \<and> length xs \<noteq> 1) \<or> (\<exists>xs ws. wv = WindowedValue (Generator xs) ws)"
  by (cases wv rule: rejected_with.cases; simp)+

text \<open>
  Claim C2. On windowed pairs the rule groups as the claim says
  (\<open>GroupByKeyOnly_groups_of_pairs\<close>). The other half of the claim fails: an element that
  is not a windowed 2-element pair does not always raise the type-check error. When the
  cached input holds the bare pair \<open>('a', '1')\<close>, a tuple that is not wrapped in a windowed
  value, the message of the \<open>TypeCheckError\<close> is formatted with that tuple as the argument
  sequence of \<open>%\<close>, and the rule raises \<open>TypeError\<close>. When the payload of a windowed
  value is a generator, \<open>len\<close> raises \<open>TypeError\<close>. A windowed value whose payload is not
  iterable raises \<open>TypeCheckError\<close>, as intended. This holds for every coder and every
  iteration order of the dictionary.
\<close>

theorem GroupByKeyOnly_bare_tuple_raises_TypeError:
  "run_GroupByKeyOnly hash_order
      \<lparr>cache = [(''in'', None) \<mapsto> Seq [Tuple [Atom ''a'', Atom ''1'']]],
        element_counts = (\<lambda>k. 0), runner_counter_factory = CounterFactory_init\<rparr>
      \<lparr>full_label = ''gbk'', inputs = [(''in'', None)],
        transform = GroupByKeyOnly encode decode\<rparr>
     = Inl TypeError
   \<and> run_GroupByKeyOnly hash_order
      \<lparr>cache = [(''in'', None) \<mapsto>
          Seq [WindowedValue (Generator [Atom ''a'', Atom ''1'']) [GlobalWindow]]],
        element_counts = (\<lambda>k. 0), runner_counter_factory = CounterFactory_init\<rparr>
      \<lparr>full_label = ''gbk'', inputs = [(''in'', None)],
        transform = GroupByKeyOnly encode decode\<rparr>
     = Inl TypeError
   \<and> run_GroupByKeyOnly hash_order
      \<lparr>cache = [(''in'', None) \<mapsto> Seq [WindowedValue (Atom ''b'') [GlobalWindow]]],
        element_counts = (\<lambda>k. 0), runner_counter_factory = CounterFactory_init\<rparr>
      \<lparr>full_label = ''gbk'', inputs = [(''in'', None)],
        transform = GroupByKeyOnly encode decode\<rparr>
     = Inl TypeCheckError"
  by (simp add: run_GroupByKeyOnly_def skip_if_cached_def is_cached_def node_key_def
      GroupByKeyOnly_body_def first_input_def get_pvalue_def)

text \<open>
  The example of the specification: the windowed pairs \<open>(a, 1)\<close>, \<open>(b, 2)\<close>, \<open>(a, 3)\<close> give
  exactly the two groups \<open>(a, [1, 3])\<close> and \<open>(b, [2])\<close>.
\<close>

lemma GroupByKeyOnly_example:
  "\<exists>groups.
      run_GroupByKeyOnly (\<lambda>e. 0)
        \<lparr>cache = [(''in'', None) \<mapsto>
            Seq [WindowedValue (Tuple [Atom ''a'', Atom ''1'']) [GlobalWindow],
                 WindowedValue (Tuple [Atom ''b'', Atom ''2'']) [GlobalWindow],
                 WindowedValue (Tuple [Atom ''a'', Atom ''3'']) [GlobalWindow]]],
          element_counts = (\<lambda>k. 0), runner_counter_factory = CounterFactory_init\<rparr>
        \<lparr>full_label = ''gbk'', inputs = [(''in'', None)],
          transform = GroupByKeyOnly (\<lambda>x. case x of Atom s \<Rightarrow> s | _ \<Rightarrow> ''?'') Atom\<rparr>
      = Inr \<lparr>cache = [(''in'', None) \<mapsto>
            Seq [WindowedValue (Tuple [Atom ''a'', Atom ''1'']) [GlobalWindow],
                 WindowedValue (Tuple [Atom ''b'', Atom ''2'']) [GlobalWindow],
                 WindowedValue (Tuple [Atom ''a'', Atom ''3'']) [GlobalWindow]],
            (''gbk'', None) \<mapsto> Seq groups],
          element_counts = (\<lambda>k. 0)((''gbk'', None) := 2),
          runner_counter_factory = CounterFactory_init\<rparr>
    \<and> mset groups =
        {#WindowedValue (Tuple [Atom ''a'', Seq [Atom ''1'', Atom ''3'']]) [GlobalWindow],
          WindowedValue (Tuple [Atom ''b'', Seq [Atom ''2'']]) [GlobalWindow]#}"
proof -
  let ?enc = "\<lambda>x :: string pyobj. case x of Atom s \<Rightarrow> s | _ \<Rightarrow> ''?''"
  let ?n = "\<lparr>full_label = ''gbk'', inputs = [(''in'', None)],
          transform = GroupByKeyOnly ?enc Atom\<rparr>"
  let ?kvs = "[(Atom ''a'', Atom ''1'', [GlobalWindow]), (Atom ''b'', Atom ''2'', [GlobalWindow]),
       (Atom ''a'', Atom ''3'', [GlobalWindow])] :: (string pyobj \<times> string pyobj \<times> window list) list"
  let ?wvs = "[WindowedValue (Tuple [Atom ''a'', Atom ''1'']) [GlobalWindow],
                 WindowedValue (Tuple [Atom ''b'', Atom ''2'']) [GlobalWindow],
                 WindowedValue (Tuple [Atom ''a'', Atom ''3'']) [GlobalWindow]] :: string pyobj list"
  let ?s = "\<lparr>cache = [(''in'', None) \<mapsto> Seq ?wvs],
          element_counts = (\<lambda>k. 0), runner_counter_factory = CounterFactory_init\<rparr>"
  have a: "\<not> is_cached (cache ?s) (node_key ?n)"
    by (simp add: is_cached_def node_key_def)
  have b: "transform ?n = GroupByKeyOnly ?enc Atom"
    by simp
  have c: "inputs ?n = (''in'', None) # []"
    by simp
  have d: "cache ?s (''in'', None) = Some (Seq (map kv_element ?kvs))"
    by (simp add: kv_element_def)
  note good = GroupByKeyOnly_groups_of_pairs [OF a b c d, of "\<lambda>e. 0"]
  have keys: "?enc ` fst ` set ?kvs = {''a'', ''b''}"
    by auto
  have ms: "image_mset (group_of ?enc Atom ?kvs) (mset_set (?enc ` fst ` set ?kvs))
      = {#WindowedValue (Tuple [Atom ''a'', Seq [Atom ''1'', Atom ''3'']]) [GlobalWindow],
          WindowedValue (Tuple [Atom ''b'', Seq [Atom ''2'']]) [GlobalWindow]#}"
    unfolding keys by (simp add: group_of_def values_for_def)
  from good obtain groups where
    run: "run_GroupByKeyOnly (\<lambda>e. 0) ?s ?n =
            Inr (?s\<lparr>element_counts := (element_counts ?s)
                       (node_key ?n := element_counts ?s (node_key ?n) + int (length groups)),
                     cache := (cache ?s)(node_key ?n \<mapsto> Seq groups)\<rparr>)"
    and g: "mset groups = image_mset (group_of ?enc Atom ?kvs) (mset_set (?enc ` fst ` set ?kvs))"
    by (elim exE conjE)
  have g2: "mset groups =
        {#WindowedValue (Tuple [Atom ''a'', Seq [Atom ''1'', Atom ''3'']]) [GlobalWindow],
          WindowedValue (Tuple [Atom ''b'', Seq [Atom ''2'']]) [GlobalWindow]#}"
    using g ms by (rule trans)
  have "size (mset groups) = 2"
    unfolding g2 by simp
  then have len: "length groups = 2"
    by simp
  have run2: "run_GroupByKeyOnly (\<lambda>e. 0) ?s ?n
      = Inr \<lparr>cache = [(''in'', None) \<mapsto> Seq ?wvs, (''gbk'', None) \<mapsto> Seq groups],
          element_counts = (\<lambda>k. 0)((''gbk'', None) := 2),
          runner_counter_factory = CounterFactory_init\<rparr>"
    unfolding run len by (simp add: node_key_def)
  from run2 g2 show ?thesis
    by (intro exI [of _ groups] conjI)
qed

section \<open>The Top-K combiner (transforms/combiners.py)\<close>

subsection \<open>The standard heap functions used by the combiner\<close>

text \<open>
  The accumulator of \<open>TopCombineFn\<close> is a Python list kept as a binary min-heap by the
  standard module \<open>heapq\<close>. Its functions \<open>heappush\<close> and \<open>heappushpop\<close>, with their
  helpers, are transcribed here; every comparison is \<open>x < y\<close> on heap items, given as the
  parameter \<open>lt\<close>.
\<close>

text \<open>
  \<open>heapq._siftdown(heap, startpos, pos)\<close>: the loop carries the heap and the position of the
  hole; \<open>newitem\<close> is put into the hole when the loop ends.
\<close>

function siftdown_loop :: "('a \<Rightarrow> 'a \<Rightarrow> bool) \<Rightarrow> 'a \<Rightarrow> nat \<Rightarrow> 'a list \<Rightarrow> nat \<Rightarrow> 'a list" where
  "siftdown_loop lt newitem startpos heap pos =
     (if pos > startpos
      then (let parentpos = (pos - 1) div 2;
                parent = heap ! parentpos
            in if lt newitem parent
               then siftdown_loop lt newitem startpos (heap[pos := parent]) parentpos
               else heap[pos := newitem])
      else heap[pos := newitem])"
  by pat_completeness auto
termination
  by (relation "measure (\<lambda>(lt, newitem, startpos, heap, pos). pos)") auto

declare siftdown_loop.simps [simp del]

definition siftdown :: "('a \<Rightarrow> 'a \<Rightarrow> bool) \<Rightarrow> 'a list \<Rightarrow> nat \<Rightarrow> nat \<Rightarrow> 'a list" where
  "siftdown lt heap startpos pos = siftdown_loop lt (heap ! pos) startpos heap pos"

text \<open>
  \<open>heapq._siftup(heap, pos)\<close>: the loop moves the smaller child up until the hole is at a
  leaf and returns the heap and the position of the hole; then \<open>newitem\<close> is put there and
  sifted down.
\<close>

function siftup_loop :: "('a \<Rightarrow> 'a \<Rightarrow> bool) \<Rightarrow> nat \<Rightarrow> 'a list \<Rightarrow> nat \<Rightarrow> nat \<Rightarrow> 'a list \<times> nat" where
  "siftup_loop lt endpos heap pos childpos =
     (if childpos < endpos
      then (let rightpos = childpos + 1;
                childpos1 = (if rightpos < endpos \<and> \<not> lt (heap ! childpos) (heap ! rightpos)
                             then rightpos else childpos)
            in siftup_loop lt endpos (heap[pos := heap ! childpos1]) childpos1 (2 * childpos1 + 1))
      else (heap, pos))"
  by pat_completeness auto
termination
  by (relation "measure (\<lambda>(lt, endpos, heap, pos, childpos). endpos - childpos)") auto

declare siftup_loop.simps [simp del]

definition siftup :: "('a \<Rightarrow> 'a \<Rightarrow> bool) \<Rightarrow> 'a list \<Rightarrow> nat \<Rightarrow> 'a list" where
  "siftup lt heap pos =
     (let endpos = length heap;
          startpos = pos;
          newitem = heap ! pos
      in case siftup_loop lt endpos heap pos (2 * pos + 1) of
           (heap1, pos1) \<Rightarrow> siftdown lt (heap1[pos1 := newitem]) startpos pos1)"

definition heappush :: "('a \<Rightarrow> 'a \<Rightarrow> bool) \<Rightarrow> 'a list \<Rightarrow> 'a \<Rightarrow> 'a list" where
  "heappush lt heap item =
     (let heap1 = heap @ [item] in siftdown lt heap1 0 (length heap1 - 1))"

definition heappushpop :: "('a \<Rightarrow> 'a \<Rightarrow> bool) \<Rightarrow> 'a list \<Rightarrow> 'a \<Rightarrow> 'a list \<times> 'a" where
  "heappushpop lt heap item =
     (if heap \<noteq> [] \<and> lt (heap ! 0) item
      then (siftup lt (heap[0 := item]) 0, heap ! 0)
      else (heap, item))"

text \<open>
  The built-in \<open>sorted\<close> is a stable sort that compares with \<open><\<close> only; with
  \<open>reverse=True\<close> it reverses the list, sorts it and reverses the result. It is modelled
  by a stable insertion sort; for a comparator that is a strict weak order every stable
  sort returns the same list.
\<close>

fun insort_lt :: "('a \<Rightarrow> 'a \<Rightarrow> bool) \<Rightarrow> 'a \<Rightarrow> 'a list \<Rightarrow> 'a list" where
  "insort_lt lt x [] = [x]"
| "insort_lt lt x (y # ys) = (if lt y x then y # insort_lt lt x ys else x # y # ys)"

definition sorted_py :: "('a \<Rightarrow> 'a \<Rightarrow> bool) \<Rightarrow> bool \<Rightarrow> 'a list \<Rightarrow> 'a list" where
  "sorted_py lt reverse xs =
     (if reverse then rev (foldr (insort_lt lt) (rev xs) []) else foldr (insort_lt lt) xs [])"

subsection \<open>TopCombineFn\<close>

text \<open>
  A \<open>_HeapItem\<close> wraps an item and compares by \<open>compare(self.item, other.item, *args)\<close>;
  the model keeps the items themselves in the heap and passes the comparator, with its
  extra arguments bound, as \<open>lt\<close>. The bound \<open>n\<close> is a Python integer.
\<close>

definition TopCombineFn_create_accumulator :: "'a list" where
  "TopCombineFn_create_accumulator = []"

definition TopCombineFn_add_input :: "int \<Rightarrow> ('a \<Rightarrow> 'a \<Rightarrow> bool) \<Rightarrow> 'a list \<Rightarrow> 'a \<Rightarrow> 'a list" where
  "TopCombineFn_add_input n lt heap element =
     (if int (length heap) < n then heappush lt heap element
      else fst (heappushpop lt heap element))"

definition TopCombineFn_merge_accumulators :: "int \<Rightarrow> ('a \<Rightarrow> 'a \<Rightarrow> bool) \<Rightarrow> 'a list list \<Rightarrow> 'a list" where
  "TopCombineFn_merge_accumulators n lt heaps =
     foldl (\<lambda>heap e. if int (length heap) < n then heappush lt heap e
                      else fst (heappushpop lt heap e))
       [] (concat heaps)"

definition TopCombineFn_extract_output :: "('a \<Rightarrow> 'a \<Rightarrow> bool) \<Rightarrow> 'a list \<Rightarrow> 'a list" where
  "TopCombineFn_extract_output lt heap = sorted_py lt True heap"

text \<open>The accumulator of a stream: \<open>add_input\<close> over its elements from the empty
  accumulator.\<close>

definition TopCombineFn_accumulate :: "int \<Rightarrow> ('a \<Rightarrow> 'a \<Rightarrow> bool) \<Rightarrow> 'a list \<Rightarrow> 'a list" where
  "TopCombineFn_accumulate n lt xs = foldl (TopCombineFn_add_input n lt) TopCombineFn_create_accumulator xs"

section \<open>Properties of the heap functions\<close>

subsection \<open>Length and contents\<close>

text \<open>The index \<open>_siftup\<close> selects in one round of its loop: the right child when it
  exists and the left child is not less than it, the left child otherwise.\<close>

definition smaller_child :: "('a \<Rightarrow> 'a \<Rightarrow> bool) \<Rightarrow> nat \<Rightarrow> 'a list \<Rightarrow> nat \<Rightarrow> nat" where
  "smaller_child lt endpos heap childpos =
     (if childpos + 1 < endpos \<and> \<not> lt (heap ! childpos) (heap ! (childpos + 1))
      then childpos + 1 else childpos)"

lemma siftdown_loop_unfold:
  "siftdown_loop lt x s h p =
     (if s < p \<and> lt x (h ! ((p - 1) div 2))
      then siftdown_loop lt x s (h[p := h ! ((p - 1) div 2)]) ((p - 1) div 2)
      else h[p := x])"
  by (subst siftdown_loop.simps) (simp add: Let_def)

lemma siftup_loop_unfold:
  "siftup_loop lt e h p c =
     (if c < e
      then siftup_loop lt e (h[p := h ! smaller_child lt e h c]) (smaller_child lt e h c)
             (2 * smaller_child lt e h c + 1)
      else (h, p))"
  by (subst siftup_loop.simps) (simp add: Let_def smaller_child_def)

lemma smaller_child_bounds:
  "c < e \<Longrightarrow> c \<le> smaller_child lt e h c \<and> smaller_child lt e h c \<le> c + 1
     \<and> smaller_child lt e h c < e"
  by (simp add: smaller_child_def)

lemma length_siftdown_loop [simp]:
  "length (siftdown_loop lt x s h p) = length h"
proof (induction p arbitrary: h rule: less_induct)
  case (less p)
  show ?case
  proof (cases "s < p \<and> lt x (h ! ((p - 1) div 2))")
    case True
    then have "(p - 1) div 2 < p" by auto
    from less.IH [OF this] True show ?thesis
      by (subst siftdown_loop_unfold) simp
  next
    case False
    then show ?thesis
      by (subst siftdown_loop_unfold) auto
  qed
qed

lemma length_siftup_loop [simp]:
  "length (fst (siftup_loop lt e h p c)) = length h"
proof (induction "e - c" arbitrary: h p c rule: less_induct)
  case less
  show ?case
  proof (cases "c < e")
    case True
    let ?c1 = "smaller_child lt e h c"
    have "e - (2 * ?c1 + 1) < e - c"
      using smaller_child_bounds [OF True, of lt h] True by linarith
    from less.hyps [OF this] True show ?thesis
      by (subst siftup_loop_unfold) simp
  next
    case False
    then show ?thesis
      by (subst siftup_loop_unfold) simp
  qed
qed

lemma length_siftdown [simp]: "length (siftdown lt h s p) = length h"
  by (simp add: siftdown_def)

lemma siftup_eq:
  "siftup lt h p =
     siftdown lt ((fst (siftup_loop lt (length h) h p (2 * p + 1)))
                    [snd (siftup_loop lt (length h) h p (2 * p + 1)) := h ! p])
       p (snd (siftup_loop lt (length h) h p (2 * p + 1)))"
  by (simp add: siftup_def Let_def case_prod_beta)

lemma length_siftup [simp]: "length (siftup lt h p) = length h"
  by (simp only: siftup_eq length_siftdown length_list_update length_siftup_loop)

lemma length_heappush [simp]: "length (heappush lt h x) = Suc (length h)"
  by (simp add: heappush_def Let_def)

lemma length_heappushpop [simp]: "length (fst (heappushpop lt h x)) = length h"
  by (simp add: heappushpop_def)

lemma mset_swap_hole:
  assumes "i < length h" "j < length h" "i \<noteq> j"
  shows "mset (h[i := h ! j, j := x]) = mset (h[i := x])"
proof -
  have "mset (h[i := h ! j, j := x]) = add_mset x (mset (h[i := h ! j]) - {#h[i := h ! j] ! j#})"
    using assms by (simp add: mset_update)
  also have "h[i := h ! j] ! j = h ! j"
    using assms by simp
  also have "mset (h[i := h ! j]) = add_mset (h ! j) (mset h - {#h ! i#})"
    using assms by (simp add: mset_update)
  also have "add_mset x (add_mset (h ! j) (mset h - {#h ! i#}) - {#h ! j#}) = add_mset x (mset h - {#h ! i#})"
    by simp
  also have "\<dots> = mset (h[i := x])"
    using assms by (simp add: mset_update)
  finally show ?thesis .
qed

lemma mset_siftdown_loop:
  "p < length h \<Longrightarrow> mset (siftdown_loop lt x s h p) = mset (h[p := x])"
proof (induction p arbitrary: h rule: less_induct)
  case (less p)
  show ?case
  proof (cases "s < p \<and> lt x (h ! ((p - 1) div 2))")
    case True
    let ?pp = "(p - 1) div 2"
    have pp: "?pp < p" using True by auto
    have "siftdown_loop lt x s h p = siftdown_loop lt x s (h[p := h ! ?pp]) ?pp"
      using True by (subst siftdown_loop_unfold) simp
    also have "mset \<dots> = mset (h[p := h ! ?pp, ?pp := x])"
      using less.IH [OF pp, of "h[p := h ! ?pp]"] pp less.prems by simp
    also have "\<dots> = mset (h[p := x])"
      using pp less.prems by (intro mset_swap_hole) auto
    finally show ?thesis .
  next
    case False
    then show ?thesis
      by (subst siftdown_loop_unfold) auto
  qed
qed

lemma mset_siftup_loop:
  "p < length h \<Longrightarrow> e = length h \<Longrightarrow> p < c \<Longrightarrow>
   snd (siftup_loop lt e h p c) < length h
   \<and> mset ((fst (siftup_loop lt e h p c))[snd (siftup_loop lt e h p c) := x]) = mset (h[p := x])"
proof (induction "e - c" arbitrary: h p c rule: less_induct)
  case less
  show ?case
  proof (cases "c < e")
    case True
    let ?c1 = "smaller_child lt e h c"
    let ?h1 = "h[p := h ! ?c1]"
    have b: "c \<le> ?c1" "?c1 < e"
      using smaller_child_bounds [OF True, of lt h] by simp_all
    have m: "e - (2 * ?c1 + 1) < e - c"
      using b True by linarith
    have step: "siftup_loop lt e h p c = siftup_loop lt e ?h1 ?c1 (2 * ?c1 + 1)"
      using True by (subst siftup_loop_unfold) simp
    have ih: "snd (siftup_loop lt e ?h1 ?c1 (2 * ?c1 + 1)) < length ?h1
        \<and> mset ((fst (siftup_loop lt e ?h1 ?c1 (2 * ?c1 + 1)))
                  [snd (siftup_loop lt e ?h1 ?c1 (2 * ?c1 + 1)) := x]) = mset (?h1[?c1 := x])"
      using less.hyps [OF m, of ?c1 ?h1] b less.prems by simp
    have "mset (?h1[?c1 := x]) = mset (h[p := x])"
      using b less.prems by (intro mset_swap_hole) auto
    then show ?thesis
      using ih unfolding step by simp
  next
    case False
    then show ?thesis
      using less.prems by (subst (1 2 3) siftup_loop_unfold) simp
  qed
qed

lemma mset_siftdown: "p < length h \<Longrightarrow> mset (siftdown lt h s p) = mset h"
  by (simp add: siftdown_def mset_siftdown_loop)

lemma mset_siftup: "p < length h \<Longrightarrow> mset (siftup lt h p) = mset h"
proof -
  assume p: "p < length h"
  let ?r = "siftup_loop lt (length h) h p (2 * p + 1)"
  have l: "length (fst ?r) = length h"
    by (rule length_siftup_loop)
  have "p < 2 * p + 1" by simp
  from mset_siftup_loop [OF p refl this, of lt "h ! p"]
  have 1: "snd ?r < length h" and 2: "mset ((fst ?r)[snd ?r := h ! p]) = mset (h[p := h ! p])"
    by blast+
  have "mset (siftup lt h p) = mset ((fst ?r)[snd ?r := h ! p])"
    unfolding siftup_eq using 1 l by (intro mset_siftdown) simp
  also have "\<dots> = mset h"
    unfolding 2 by simp
  finally show ?thesis .
qed

lemma mset_heappush: "mset (heappush lt h x) = add_mset x (mset h)"
  by (simp add: heappush_def Let_def mset_siftdown)

lemma mset_heappushpop:
  "mset (fst (heappushpop lt h x)) =
     (if h \<noteq> [] \<and> lt (h ! 0) x then add_mset x (mset h - {#h ! 0#}) else mset h)"
  by (auto simp: heappushpop_def mset_siftup mset_update)

subsection \<open>The heap invariant\<close>

text \<open>
  The comparator is a strict weak order when it is irreflexive and transitive and
  incomparability is transitive.
\<close>

definition strict_weak_order :: "('a \<Rightarrow> 'a \<Rightarrow> bool) \<Rightarrow> bool" where
  "strict_weak_order lt =
     ((\<forall>a. \<not> lt a a)
      \<and> (\<forall>a b c. lt a b \<longrightarrow> lt b c \<longrightarrow> lt a c)
      \<and> (\<forall>a b c. \<not> lt a b \<longrightarrow> \<not> lt b c \<longrightarrow> \<not> lt a c))"

text \<open>
  The heap invariant: no item is less than its parent. \<open>hole_ok\<close> is the invariant of a
  heap with a hole at position \<open>p\<close>: all parent-child pairs that avoid the hole are in
  order, and the children of the hole are not less than its parent. \<open>above_children\<close>
  says that no child of the hole is less than \<open>x\<close>.
\<close>

definition heap_ok :: "('a \<Rightarrow> 'a \<Rightarrow> bool) \<Rightarrow> 'a list \<Rightarrow> bool" where
  "heap_ok lt h = (\<forall>i. 0 < i \<and> i < length h \<longrightarrow> \<not> lt (h ! i) (h ! ((i - 1) div 2)))"

definition hole_ok :: "('a \<Rightarrow> 'a \<Rightarrow> bool) \<Rightarrow> 'a list \<Rightarrow> nat \<Rightarrow> bool" where
  "hole_ok lt h p =
     ((\<forall>i. 0 < i \<and> i < length h \<and> i \<noteq> p \<and> (i - 1) div 2 \<noteq> p
           \<longrightarrow> \<not> lt (h ! i) (h ! ((i - 1) div 2)))
      \<and> (\<forall>i. 0 < p \<and> 0 < i \<and> i < length h \<and> (i - 1) div 2 = p
           \<longrightarrow> \<not> lt (h ! i) (h ! ((p - 1) div 2))))"

definition above_children :: "('a \<Rightarrow> 'a \<Rightarrow> bool) \<Rightarrow> 'a \<Rightarrow> 'a list \<Rightarrow> nat \<Rightarrow> bool" where
  "above_children lt x h p =
     (\<forall>i. 0 < i \<and> i < length h \<and> (i - 1) div 2 = p \<longrightarrow> \<not> lt (h ! i) x)"

lemma swo_irrefl: "strict_weak_order lt \<Longrightarrow> \<not> lt a a"
  by (simp add: strict_weak_order_def)

lemma swo_asym: "strict_weak_order lt \<Longrightarrow> lt a b \<Longrightarrow> \<not> lt b a"
  unfolding strict_weak_order_def by blast

lemma swo_le_trans: "strict_weak_order lt \<Longrightarrow> \<not> lt b a \<Longrightarrow> \<not> lt c b \<Longrightarrow> \<not> lt c a"
  unfolding strict_weak_order_def by blast

lemma swo_lt_le_trans: "strict_weak_order lt \<Longrightarrow> lt a b \<Longrightarrow> \<not> lt c b \<Longrightarrow> lt a c"
  unfolding strict_weak_order_def by blast

lemma parent_less: "0 < i \<Longrightarrow> (i - 1) div 2 < (i::nat)"
  by arith

lemma hole_okD1:
  "hole_ok lt h p \<Longrightarrow> 0 < i \<Longrightarrow> i < length h \<Longrightarrow> i \<noteq> p \<Longrightarrow> (i - 1) div 2 \<noteq> p
     \<Longrightarrow> \<not> lt (h ! i) (h ! ((i - 1) div 2))"
  by (simp add: hole_ok_def)

lemma hole_okD2:
  "hole_ok lt h p \<Longrightarrow> 0 < p \<Longrightarrow> 0 < i \<Longrightarrow> i < length h \<Longrightarrow> (i - 1) div 2 = p
     \<Longrightarrow> \<not> lt (h ! i) (h ! ((p - 1) div 2))"
  by (simp add: hole_ok_def)

lemma above_childrenD:
  "above_children lt x h p \<Longrightarrow> 0 < i \<Longrightarrow> i < length h \<Longrightarrow> (i - 1) div 2 = p \<Longrightarrow> \<not> lt (h ! i) x"
  by (simp add: above_children_def)

lemma hole_ok_cong:
  assumes "hole_ok lt h p" "length h' = length h" "\<And>i. i \<noteq> p \<Longrightarrow> h' ! i = h ! i"
  shows "hole_ok lt h' p"
  unfolding hole_ok_def
proof (intro conjI allI impI)
  fix i assume "0 < i \<and> i < length h' \<and> i \<noteq> p \<and> (i - 1) div 2 \<noteq> p"
  then show "\<not> lt (h' ! i) (h' ! ((i - 1) div 2))"
    using hole_okD1 [OF assms(1), of i] assms(2,3) by simp
next
  fix i assume a: "0 < p \<and> 0 < i \<and> i < length h' \<and> (i - 1) div 2 = p"
  then have "i \<noteq> p" using parent_less [of i] by auto
  moreover have "(p - 1) div 2 \<noteq> p" using a parent_less [of p] by auto
  ultimately show "\<not> lt (h' ! i) (h' ! ((p - 1) div 2))"
    using hole_okD2 [OF assms(1), of i] a assms(2,3) by simp
qed

lemma hole_ok_update: "hole_ok lt (h[p := x]) p = hole_ok lt h p"
proof
  assume "hole_ok lt (h[p := x]) p"
  then show "hole_ok lt h p"
    by (rule hole_ok_cong) simp_all
next
  assume "hole_ok lt h p"
  then show "hole_ok lt (h[p := x]) p"
    by (rule hole_ok_cong) simp_all
qed

lemma fill_hole_heap_ok:
  assumes "hole_ok lt h p" "above_children lt x h p" "p < length h"
      and "0 < p \<longrightarrow> \<not> lt x (h ! ((p - 1) div 2))"
  shows "heap_ok lt (h[p := x])"
  unfolding heap_ok_def
proof (intro allI impI)
  fix i assume i: "0 < i \<and> i < length (h[p := x])"
  then have il: "i < length h" and i0: "0 < i" by simp_all
  have pi: "(i - 1) div 2 < i" using i0 by (rule parent_less)
  show "\<not> lt (h[p := x] ! i) (h[p := x] ! ((i - 1) div 2))"
  proof (cases "i = p")
    case True
    then show ?thesis using assms(4) i0 il pi by simp
  next
    case False
    show ?thesis
    proof (cases "(i - 1) div 2 = p")
      case True
      then show ?thesis
        using above_childrenD [OF assms(2) i0 il True] False assms(3) by simp
    next
      case np: False
      then show ?thesis
        using hole_okD1 [OF assms(1) i0 il False np] False by simp
    qed
  qed
qed

lemma siftdown_loop_heap_ok:
  assumes swo: "strict_weak_order lt"
  shows "p < length h \<Longrightarrow> hole_ok lt h p \<Longrightarrow> above_children lt x h p
     \<Longrightarrow> heap_ok lt (siftdown_loop lt x 0 h p)"
proof (induction p arbitrary: h rule: less_induct)
  case (less p)
  let ?pp = "(p - 1) div 2"
  show ?case
  proof (cases "0 < p \<and> lt x (h ! ?pp)")
    case False
    have "heap_ok lt (h[p := x])"
      using less.prems False by (intro fill_hole_heap_ok) auto
    moreover have "siftdown_loop lt x 0 h p = h[p := x]"
      using False by (subst siftdown_loop_unfold) auto
    ultimately show ?thesis
      by simp
  next
    case True
    then have p0: "0 < p" and ltx: "lt x (h ! ?pp)" by simp_all
    have pp: "?pp < p" using p0 by (rule parent_less)
    let ?h = "h[p := h ! ?pp]"
    have ppl: "?pp < length ?h" using pp less.prems(1) by simp
    have nth: "?h ! i = (if i = p then h ! ?pp else h ! i)" if "i < length h" for i
      using that by (simp add: nth_list_update)
    have edge_pp: "\<not> lt (h ! ?pp) (h ! ((?pp - 1) div 2))" if "0 < ?pp"
    proof -
      have "(?pp - 1) div 2 < ?pp" using that by (rule parent_less)
      then show ?thesis
        using hole_okD1 [OF less.prems(2) that, of] pp less.prems(1) by simp
    qed
    have edge_sib: "\<not> lt (h ! i) (h ! ?pp)"
      if "0 < i" "i < length h" "(i - 1) div 2 = ?pp" "i \<noteq> p" for i
      using hole_okD1 [OF less.prems(2) that(1,2,4)] that(3) pp by simp
    have hole: "hole_ok lt ?h ?pp"
      unfolding hole_ok_def
    proof (intro conjI allI impI)
      fix i assume a: "0 < i \<and> i < length ?h \<and> i \<noteq> ?pp \<and> (i - 1) div 2 \<noteq> ?pp"
      then have i0: "0 < i" and il: "i < length h" and ip: "i \<noteq> p" by auto
      have pil: "(i - 1) div 2 < length h" using parent_less [OF i0] il by simp
      show "\<not> lt (?h ! i) (?h ! ((i - 1) div 2))"
      proof (cases "(i - 1) div 2 = p")
        case True
        then show ?thesis
          using hole_okD2 [OF less.prems(2) p0 i0 il True] ip il pil by (simp add: nth)
      next
        case False
        then show ?thesis
          using hole_okD1 [OF less.prems(2) i0 il ip False] ip il pil by (simp add: nth)
      qed
    next
      fix i assume a: "0 < ?pp \<and> 0 < i \<and> i < length ?h \<and> (i - 1) div 2 = ?pp"
      then have pp0: "0 < ?pp" and i0: "0 < i" and il: "i < length h" and pi: "(i - 1) div 2 = ?pp"
        by auto
      have gp: "(?pp - 1) div 2 < ?pp" using pp0 by (rule parent_less)
      then have gpn: "?h ! ((?pp - 1) div 2) = h ! ((?pp - 1) div 2)"
        using pp less.prems(1) by (simp add: nth)
      have hi: "?h ! i = (if i = p then h ! ?pp else h ! i)"
        using il by (rule nth)
      show "\<not> lt (?h ! i) (?h ! ((?pp - 1) div 2))"
        unfolding gpn hi
      proof (cases "i = p")
        case True
        then show "\<not> lt (if i = p then h ! ?pp else h ! i) (h ! ((?pp - 1) div 2))"
          using edge_pp [OF pp0] by simp
      next
        case False
        have "\<not> lt (h ! i) (h ! ((?pp - 1) div 2))"
          using swo_le_trans [OF swo edge_pp [OF pp0] edge_sib [OF i0 il pi False]] .
        then show "\<not> lt (if i = p then h ! ?pp else h ! i) (h ! ((?pp - 1) div 2))"
          using False by simp
      qed
    qed
    have above: "above_children lt x ?h ?pp"
      unfolding above_children_def
    proof (intro allI impI)
      fix i assume a: "0 < i \<and> i < length ?h \<and> (i - 1) div 2 = ?pp"
      then have i0: "0 < i" and il: "i < length h" and pi: "(i - 1) div 2 = ?pp" by auto
      have xpp: "\<not> lt (h ! ?pp) x" using swo_asym [OF swo ltx] .
      show "\<not> lt (?h ! i) x"
      proof (cases "i = p")
        case True
        then show ?thesis using xpp il by (simp add: nth)
      next
        case False
        have "\<not> lt (h ! i) x"
          using swo_le_trans [OF swo xpp edge_sib [OF i0 il pi False]] .
        then show ?thesis using False il by (simp add: nth)
      qed
    qed
    have "heap_ok lt (siftdown_loop lt x 0 ?h ?pp)"
      using less.IH [OF pp ppl hole above] .
    then show ?thesis
      using True by (subst siftdown_loop_unfold) simp
  qed
qed

lemma smaller_child_cases:
  "c < e \<Longrightarrow> smaller_child lt e h c = c \<or> (smaller_child lt e h c = c + 1 \<and> c + 1 < e)"
  by (simp add: smaller_child_def)

lemma smaller_child_le_sibling:
  assumes swo: "strict_weak_order lt" and "c < e" "i < e" "i = c \<or> i = c + 1"
  shows "\<not> lt (h ! i) (h ! smaller_child lt e h c)"
proof (cases "c + 1 < e \<and> \<not> lt (h ! c) (h ! (c + 1))")
  case True
  then have sc: "smaller_child lt e h c = c + 1" by (simp add: smaller_child_def)
  show ?thesis
    using assms(4) True swo_irrefl [OF swo] unfolding sc by auto
next
  case False
  then have sc: "smaller_child lt e h c = c" by (simp add: smaller_child_def)
  show ?thesis
  proof (cases "i = c")
    case True
    then show ?thesis unfolding sc using swo_irrefl [OF swo] by simp
  next
    case ni: False
    then have i: "i = c + 1" using assms(4) by simp
    then have "lt (h ! c) (h ! (c + 1))" using False assms(3) by simp
    then show ?thesis unfolding sc i by (rule swo_asym [OF swo])
  qed
qed

lemma children_of: "0 < i \<Longrightarrow> (i - 1) div 2 = p \<longleftrightarrow> (i = 2 * p + 1 \<or> i = 2 * p + 2)" for i p :: nat
  by arith

lemma siftup_loop_hole_ok:
  assumes swo: "strict_weak_order lt"
  shows "p < length h \<Longrightarrow> e = length h \<Longrightarrow> c = 2 * p + 1 \<Longrightarrow> hole_ok lt h p \<Longrightarrow>
     hole_ok lt (fst (siftup_loop lt e h p c)) (snd (siftup_loop lt e h p c))
     \<and> snd (siftup_loop lt e h p c) < length h
     \<and> length h \<le> 2 * snd (siftup_loop lt e h p c) + 1"
proof (induction "e - c" arbitrary: h p c rule: less_induct)
  case less
  show ?case
  proof (cases "c < e")
    case False
    have "siftup_loop lt e h p c = (h, p)"
      using False by (subst siftup_loop_unfold) simp
    then show ?thesis
      using less.prems False by simp
  next
    case ce: True
    let ?c1 = "smaller_child lt e h c"
    let ?h = "h[p := h ! ?c1]"
    have b: "c \<le> ?c1" "?c1 < e" "?c1 \<le> c + 1"
      using smaller_child_bounds [OF ce, of lt h] by simp_all
    have c1p: "(?c1 - 1) div 2 = p" "0 < ?c1" "?c1 \<noteq> p" "p < ?c1"
      using b less.prems(3) by auto
    have m: "e - (2 * ?c1 + 1) < e - c"
      using b ce by linarith
    have step: "siftup_loop lt e h p c = siftup_loop lt e ?h ?c1 (2 * ?c1 + 1)"
      using ce by (subst siftup_loop_unfold) simp
    have nth: "?h ! i = (if i = p then h ! ?c1 else h ! i)" if "i < length h" for i
      using that by (simp add: nth_list_update)
    have hole: "hole_ok lt ?h ?c1"
      unfolding hole_ok_def
    proof (intro conjI allI impI)
      fix i assume a: "0 < i \<and> i < length ?h \<and> i \<noteq> ?c1 \<and> (i - 1) div 2 \<noteq> ?c1"
      then have i0: "0 < i" and il: "i < length h" and ic: "i \<noteq> ?c1" by auto
      have pil: "(i - 1) div 2 < length h" using parent_less [OF i0] il by simp
      have hi: "?h ! i = (if i = p then h ! ?c1 else h ! i)" using il by (rule nth)
      have hpi: "?h ! ((i - 1) div 2) = (if (i - 1) div 2 = p then h ! ?c1 else h ! ((i - 1) div 2))"
        using pil by (rule nth)
      show "\<not> lt (?h ! i) (?h ! ((i - 1) div 2))"
        unfolding hi hpi
      proof (cases "i = p")
        case True
        then have p0: "0 < p" using i0 by simp
        have "(p - 1) div 2 \<noteq> p" using parent_less [OF p0] by simp
        moreover have "\<not> lt (h ! ?c1) (h ! ((p - 1) div 2))"
          using hole_okD2 [OF less.prems(4) p0 c1p(2) _ c1p(1)] b less.prems(2) by simp
        ultimately show "\<not> lt (if i = p then h ! ?c1 else h ! i)
            (if (i - 1) div 2 = p then h ! ?c1 else h ! ((i - 1) div 2))"
          using True by simp
      next
        case ip: False
        show "\<not> lt (if i = p then h ! ?c1 else h ! i)
            (if (i - 1) div 2 = p then h ! ?c1 else h ! ((i - 1) div 2))"
        proof (cases "(i - 1) div 2 = p")
          case True
          then have "i = c \<or> i = c + 1"
            using children_of [OF i0, of p] less.prems(3) by simp
          then have "\<not> lt (h ! i) (h ! ?c1)"
            using il less.prems(2)
            by (intro smaller_child_le_sibling [OF swo ce]) simp_all
          then show ?thesis using True ip by simp
        next
          case False
          then show ?thesis
            using hole_okD1 [OF less.prems(4) i0 il ip False] ip by simp
        qed
      qed
    next
      fix i assume a: "0 < ?c1 \<and> 0 < i \<and> i < length ?h \<and> (i - 1) div 2 = ?c1"
      then have i0: "0 < i" and il: "i < length h" and pi: "(i - 1) div 2 = ?c1" by auto
      have ip: "i \<noteq> p" using pi c1p parent_less [OF i0] by simp
      have "\<not> lt (h ! i) (h ! ((i - 1) div 2))"
        using hole_okD1 [OF less.prems(4) i0 il ip] pi c1p(3) by simp
      then have e1: "\<not> lt (h ! i) (h ! ?c1)"
        unfolding pi .
      have hp: "?h ! ((?c1 - 1) div 2) = h ! ?c1"
        unfolding c1p(1) using less.prems(1) by simp
      have hi: "?h ! i = h ! i"
        using ip il by simp
      show "\<not> lt (?h ! i) (?h ! ((?c1 - 1) div 2))"
        unfolding hp hi by (rule e1)
    qed
    have "hole_ok lt (fst (siftup_loop lt e ?h ?c1 (2 * ?c1 + 1)))
            (snd (siftup_loop lt e ?h ?c1 (2 * ?c1 + 1)))
        \<and> snd (siftup_loop lt e ?h ?c1 (2 * ?c1 + 1)) < length ?h
        \<and> length ?h \<le> 2 * snd (siftup_loop lt e ?h ?c1 (2 * ?c1 + 1)) + 1"
      using b less.prems(2) by (intro less.hyps [OF m _ _ refl hole]) simp_all
    then show ?thesis
      unfolding step by simp
  qed
qed

lemma heap_ok_imp_hole_ok_root:
  assumes "heap_ok lt h"
  shows "hole_ok lt (h[0 := x]) 0"
proof -
  have "hole_ok lt h 0"
    using assms unfolding heap_ok_def hole_ok_def by simp
  then show ?thesis
    by (simp only: hole_ok_update)
qed

lemma siftup_root_heap_ok:
  assumes swo: "strict_weak_order lt" and "h \<noteq> []" "hole_ok lt h 0"
  shows "heap_ok lt (siftup lt h 0)"
proof -
  let ?r = "siftup_loop lt (length h) h 0 (2 * 0 + 1)"
  let ?h1 = "fst ?r" and ?p1 = "snd ?r"
  have h0: "0 < length h" using assms(2) by simp
  have r: "hole_ok lt ?h1 ?p1" "?p1 < length h" "length h \<le> 2 * ?p1 + 1"
    using siftup_loop_hole_ok [OF swo h0 refl refl assms(3)] by simp_all
  have l: "length ?h1 = length h"
    by (rule length_siftup_loop)
  let ?h2 = "?h1[?p1 := h ! 0]"
  have hole2: "hole_ok lt ?h2 ?p1"
    using r(1) by (simp only: hole_ok_update)
  have above: "above_children lt (h ! 0) ?h2 ?p1"
    unfolding above_children_def
  proof (intro allI impI)
    fix i assume a: "0 < i \<and> i < length ?h2 \<and> (i - 1) div 2 = ?p1"
    then have "i = 2 * ?p1 + 1 \<or> i = 2 * ?p1 + 2"
      using children_of [of i ?p1] by simp
    then have "length h \<le> i" using r(3) by auto
    then have False using a l by simp
    then show "\<not> lt (?h2 ! i) (h ! 0)" ..
  qed
  have p2: "?p1 < length ?h2" using r(2) l by simp
  have "heap_ok lt (siftdown_loop lt (h ! 0) 0 ?h2 ?p1)"
    using siftdown_loop_heap_ok [OF swo p2 hole2 above] .
  moreover have "siftup lt h 0 = siftdown_loop lt (h ! 0) 0 ?h2 ?p1"
  proof -
    have "?h2 ! ?p1 = h ! 0" using r(2) l by simp
    then show ?thesis
      unfolding siftup_eq [of lt h 0] siftdown_def by simp
  qed
  ultimately show ?thesis by simp
qed

lemma heappushpop_heap_ok:
  assumes swo: "strict_weak_order lt" and "heap_ok lt h"
  shows "heap_ok lt (fst (heappushpop lt h x))"
proof (cases "h \<noteq> [] \<and> lt (h ! 0) x")
  case False
  then show ?thesis using assms(2) by (auto simp: heappushpop_def)
next
  case True
  have "heap_ok lt (siftup lt (h[0 := x]) 0)"
    using True heap_ok_imp_hole_ok_root [OF assms(2)]
    by (intro siftup_root_heap_ok [OF swo]) simp_all
  then show ?thesis using True by (simp add: heappushpop_def)
qed

lemma heappush_heap_ok:
  assumes swo: "strict_weak_order lt" and "heap_ok lt h"
  shows "heap_ok lt (heappush lt h x)"
proof -
  let ?h = "h @ [x]" and ?p = "length h"
  have hole: "hole_ok lt ?h ?p"
    unfolding hole_ok_def
  proof (intro conjI allI impI)
    fix i assume a: "0 < i \<and> i < length ?h \<and> i \<noteq> ?p \<and> (i - 1) div 2 \<noteq> ?p"
    then have i0: "0 < i" and il: "i < length h" by auto
    have "(i - 1) div 2 < length h" using parent_less [OF i0] il by simp
    then show "\<not> lt (?h ! i) (?h ! ((i - 1) div 2))"
      using assms(2) i0 il unfolding heap_ok_def by (simp add: nth_append)
  next
    fix i assume a: "0 < ?p \<and> 0 < i \<and> i < length ?h \<and> (i - 1) div 2 = ?p"
    then have False using parent_less [of i] by simp
    then show "\<not> lt (?h ! i) (?h ! ((?p - 1) div 2))" ..
  qed
  have above: "above_children lt x ?h ?p"
    unfolding above_children_def
  proof (intro allI impI)
    fix i assume a: "0 < i \<and> i < length ?h \<and> (i - 1) div 2 = ?p"
    then have False using parent_less [of i] by simp
    then show "\<not> lt (?h ! i) x" ..
  qed
  have "heap_ok lt (siftdown_loop lt x 0 ?h ?p)"
    using hole above by (intro siftdown_loop_heap_ok [OF swo]) simp_all
  then show ?thesis
    by (simp add: heappush_def siftdown_def Let_def)
qed

lemma heap_root_min:
  assumes swo: "strict_weak_order lt" and "heap_ok lt h"
  shows "i < length h \<Longrightarrow> \<not> lt (h ! i) (h ! 0)"
proof (induction i rule: less_induct)
  case (less i)
  show ?case
  proof (cases "i = 0")
    case True
    then show ?thesis using swo_irrefl [OF swo] by simp
  next
    case False
    then have i0: "0 < i" by simp
    have pl: "(i - 1) div 2 < i" using i0 by (rule parent_less)
    have 1: "\<not> lt (h ! ((i - 1) div 2)) (h ! 0)"
      using less.IH [OF pl] pl less.prems by simp
    have 2: "\<not> lt (h ! i) (h ! ((i - 1) div 2))"
      using assms(2) i0 less.prems unfolding heap_ok_def by simp
    show ?thesis
      using swo_le_trans [OF swo 1 2] .
  qed
qed

lemma heap_root_min_mset:
  assumes "strict_weak_order lt" "heap_ok lt h" "a \<in># mset h"
  shows "\<not> lt a (h ! 0)"
proof -
  from assms(3) obtain i where "i < length h" "h ! i = a"
    by (auto simp: in_set_conv_nth)
  then show ?thesis
    using heap_root_min [OF assms(1,2), of i] by simp
qed

section \<open>Properties of the Top-K combiner\<close>

subsection \<open>The accumulator holds the greatest items\<close>

text \<open>
  \<open>topk_of lt k H M\<close>: the multiset \<open>H\<close> consists of \<open>k\<close> greatest items of the multiset
  \<open>M\<close> (of all items when \<open>M\<close> has fewer than \<open>k\<close>): it is a part of \<open>M\<close> of that size,
  and no item of \<open>H\<close> is less than an item of \<open>M\<close> left out of \<open>H\<close>.
\<close>

definition topk_of :: "('a \<Rightarrow> 'a \<Rightarrow> bool) \<Rightarrow> nat \<Rightarrow> 'a multiset \<Rightarrow> 'a multiset \<Rightarrow> bool" where
  "topk_of lt k H M =
     (H \<subseteq># M \<and> size H = min k (size M) \<and> (\<forall>a\<in>#H. \<forall>b\<in>#M - H. \<not> lt a b))"

text \<open>A strict total order is a strict weak order in which incomparable items are
  equal.\<close>

definition strict_total_order :: "('a \<Rightarrow> 'a \<Rightarrow> bool) \<Rightarrow> bool" where
  "strict_total_order lt =
     (strict_weak_order lt \<and> (\<forall>a b. \<not> lt a b \<longrightarrow> \<not> lt b a \<longrightarrow> a = b))"

lemma topk_ofI:
  assumes "M = H + R" "size H = min k (size M)" "\<And>a b. a \<in># H \<Longrightarrow> b \<in># R \<Longrightarrow> \<not> lt a b"
  shows "topk_of lt k H M"
  using assms by (auto simp: topk_of_def)

lemma topk_of_empty: "topk_of lt k {#} {#}"
  by (simp add: topk_of_def)

lemma add_input_topk:
  assumes swo: "strict_weak_order lt" and ok: "heap_ok lt h"
      and tk: "topk_of lt (nat n) (mset h) M"
  shows "heap_ok lt (TopCombineFn_add_input n lt h x)
     \<and> topk_of lt (nat n) (mset (TopCombineFn_add_input n lt h x)) (add_mset x M)"
proof -
  define R where "R = M - mset h"
  have M: "M = mset h + R"
    using tk by (simp add: topk_of_def R_def)
  have sz: "size (mset h) = min (nat n) (size M)"
    using tk by (simp add: topk_of_def)
  have dom: "\<not> lt a b" if "a \<in># mset h" "b \<in># R" for a b
    using tk that by (simp add: topk_of_def R_def)
  show ?thesis
  proof (cases "int (length h) < n")
    case True
    then have small: "length h < nat n" by simp
    then have "size M = length h" using sz by simp
    then have R: "R = {#}" using M by simp
    have eq: "TopCombineFn_add_input n lt h x = heappush lt h x"
      using True by (simp add: TopCombineFn_add_input_def)
    have "topk_of lt (nat n) (add_mset x (mset h)) (add_mset x M)"
    proof (rule topk_ofI [where R = "{#}"])
      show "add_mset x M = add_mset x (mset h) + {#}" using M R by simp
      show "size (add_mset x (mset h)) = min (nat n) (size (add_mset x M))"
        using small M R by simp
    qed simp
    then show ?thesis
      unfolding eq using heappush_heap_ok [OF swo ok] by (simp add: mset_heappush)
  next
    case False
    then have full: "nat n \<le> length h" by simp
    then have len: "length h = nat n" using sz by simp
    then have szM: "nat n \<le> size M" using M by simp
    have eq: "TopCombineFn_add_input n lt h x = fst (heappushpop lt h x)"
      using False by (simp add: TopCombineFn_add_input_def)
    have hok: "heap_ok lt (fst (heappushpop lt h x))"
      using heappushpop_heap_ok [OF swo ok] .
    show ?thesis
    proof (cases "h \<noteq> [] \<and> lt (h ! 0) x")
      case True
      then have r_in: "h ! 0 \<in># mset h" by simp
      have pos: "0 < nat n" using True len by (cases h) auto
      have ms: "mset (fst (heappushpop lt h x)) = add_mset x (mset h - {#h ! 0#})"
        using True by (simp add: mset_heappushpop)
      have "topk_of lt (nat n) (add_mset x (mset h - {#h ! 0#})) (add_mset x M)"
      proof (rule topk_ofI [where R = "add_mset (h ! 0) R"])
        show "add_mset x M = add_mset x (mset h - {#h ! 0#}) + add_mset (h ! 0) R"
          using M r_in by simp
        show "size (add_mset x (mset h - {#h ! 0#})) = min (nat n) (size (add_mset x M))"
          using len szM r_in pos by (simp add: size_Diff_singleton)
        fix a b assume a: "a \<in># add_mset x (mset h - {#h ! 0#})" and b: "b \<in># add_mset (h ! 0) R"
        show "\<not> lt a b"
        proof (cases "a = x")
          case ax: True
          show ?thesis
          proof (cases "b = h ! 0")
            case True
            then show ?thesis using swo_asym [OF swo] \<open>h \<noteq> [] \<and> lt (h ! 0) x\<close> ax by simp
          next
            case False
            then have "b \<in># R" using b by simp
            then have "\<not> lt (h ! 0) b" using dom r_in by simp
            then show ?thesis
              using \<open>h \<noteq> [] \<and> lt (h ! 0) x\<close> swo ax unfolding strict_weak_order_def by blast
          qed
        next
          case False
          then have ah: "a \<in># mset h" using a by (auto dest: in_diffD)
          show ?thesis
          proof (cases "b = h ! 0")
            case True
            then show ?thesis using heap_root_min_mset [OF swo ok ah] by simp
          next
            case False
            then have "b \<in># R" using b by simp
            then show ?thesis using dom ah by simp
          qed
        qed
      qed
      then show ?thesis
        unfolding eq using hok by (simp add: ms)
    next
      case nr: False
      have ms: "mset (fst (heappushpop lt h x)) = mset h"
        using nr by (auto simp: mset_heappushpop)
      have "topk_of lt (nat n) (mset h) (add_mset x M)"
      proof (rule topk_ofI [where R = "add_mset x R"])
        show "add_mset x M = mset h + add_mset x R" using M by simp
        show "size (mset h) = min (nat n) (size (add_mset x M))"
          using len szM by simp
        fix a b assume a: "a \<in># mset h" and b: "b \<in># add_mset x R"
        show "\<not> lt a b"
        proof (cases "b = x")
          case True
          have "h \<noteq> []" using a by auto
          then have 1: "\<not> lt (h ! 0) x" using nr by simp
          have 2: "\<not> lt a (h ! 0)" using heap_root_min_mset [OF swo ok a] .
          show ?thesis using swo_le_trans [OF swo 1 2] True by simp
        next
          case False
          then have "b \<in># R" using b by simp
          then show ?thesis using dom a by simp
        qed
      qed
      then show ?thesis
        unfolding eq using hok by (simp add: ms)
    qed
  qed
qed

lemma foldl_add_input_topk:
  assumes swo: "strict_weak_order lt"
  shows "heap_ok lt h \<Longrightarrow> topk_of lt (nat n) (mset h) M \<Longrightarrow>
     heap_ok lt (foldl (TopCombineFn_add_input n lt) h xs)
     \<and> topk_of lt (nat n) (mset (foldl (TopCombineFn_add_input n lt) h xs)) (M + mset xs)"
proof (induction xs arbitrary: h M)
  case Nil
  then show ?case by simp
next
  case (Cons x xs)
  have step: "heap_ok lt (TopCombineFn_add_input n lt h x)"
      "topk_of lt (nat n) (mset (TopCombineFn_add_input n lt h x)) (add_mset x M)"
    using add_input_topk [OF swo Cons.prems, of x] by simp_all
  show ?case
    using Cons.IH [OF step] by simp
qed

lemma heap_ok_Nil: "heap_ok lt []"
  by (simp add: heap_ok_def)

lemma accumulate_topk:
  assumes "strict_weak_order lt"
  shows "heap_ok lt (TopCombineFn_accumulate n lt xs)
     \<and> topk_of lt (nat n) (mset (TopCombineFn_accumulate n lt xs)) (mset xs)"
  using foldl_add_input_topk [OF assms heap_ok_Nil, of n "{#}" xs]
  by (simp add: TopCombineFn_accumulate_def TopCombineFn_create_accumulator_def topk_of_empty)

lemma merge_as_accumulate:
  "TopCombineFn_merge_accumulators n lt heaps = TopCombineFn_accumulate n lt (concat heaps)"
  by (simp add: TopCombineFn_merge_accumulators_def TopCombineFn_accumulate_def
      TopCombineFn_create_accumulator_def TopCombineFn_add_input_def [abs_def])

subsection \<open>Merging partial accumulators\<close>

lemma subset_mset_avoid:
  assumes "A \<subseteq># B + C" "\<And>x. x \<in># A \<Longrightarrow> x \<notin># C"
  shows "A \<subseteq># B"
proof (rule mset_subset_eqI)
  fix x
  show "count A x \<le> count B x"
  proof (cases "x \<in># A")
    case True
    then have "count C x = 0" using assms(2) by (simp add: not_in_iff)
    moreover have "count A x \<le> count (B + C) x"
      using assms(1) by (rule mset_subset_eq_count)
    ultimately show ?thesis by simp
  next
    case False
    then show ?thesis by (simp add: not_in_iff)
  qed
qed

lemma mset_subset_size_eq:
  assumes "A \<subseteq># B" "size B \<le> size A"
  shows "A = B"
proof (rule ccontr)
  assume "A \<noteq> B"
  then have "A \<subset># B" using assms(1) by (simp add: subset_mset.less_le)
  then have "size A < size B" by (rule mset_subset_size)
  then show False using assms(2) by simp
qed

lemma topk_replace_part:
  assumes swo: "strict_weak_order lt"
      and t: "topk_of lt k H (H1 + X)" and t1: "topk_of lt k H1 M1"
  shows "topk_of lt k H (M1 + X)"
proof -
  define R where "R = (H1 + X) - H"
  define R1 where "R1 = M1 - H1"
  have HX: "H1 + X = H + R" and szH: "size H = min k (size (H1 + X))"
    using t by (simp_all add: topk_of_def R_def)
  have dom: "\<not> lt a b" if "a \<in># H" "b \<in># R" for a b
    using t that by (simp add: topk_of_def R_def)
  have M1: "M1 = H1 + R1" and szH1: "size H1 = min k (size M1)"
    using t1 by (simp_all add: topk_of_def R1_def)
  have dom1: "\<not> lt a b" if "a \<in># H1" "b \<in># R1" for a b
    using t1 that by (simp add: topk_of_def R1_def)
  show ?thesis
  proof (rule topk_ofI [where R = "R + R1"])
    have "M1 + X = (H1 + X) + R1" using M1 by simp
    then show "M1 + X = H + (R + R1)" using HX by simp
    have e1: "size H = min k (size H1 + size X)"
      using szH by (simp only: size_union)
    have e2: "size (M1 + X) = size M1 + size X"
      by (simp only: size_union)
    show "size H = min k (size (M1 + X))"
      unfolding e2 using e1 szH1 by arith
    fix a b assume a: "a \<in># H" and b: "b \<in># R + R1"
    show "\<not> lt a b"
    proof (cases "b \<in># R")
      case True
      then show ?thesis using dom a by simp
    next
      case False
      then have bR1: "b \<in># R1" using b by simp
      show ?thesis
      proof
        assume ab: "lt a b"
        have s1: "size M1 = size H1 + size R1"
          by (subst M1) (simp only: size_union)
        have "R1 \<noteq> {#}" using bR1 by auto
        then have s2: "0 < size R1" by (simp only: nonempty_has_size)
        have szk: "size H1 = k" using szH1 s1 s2 by arith
        have above: "lt a h" if "h \<in># H1" for h
          using swo_lt_le_trans [OF swo ab dom1 [OF that bR1]] .
        have "H1 \<subseteq># H1 + X"
          by (rule mset_subset_eq_add_left)
        then have "H1 \<subseteq># H + R"
          by (simp only: HX)
        moreover have "h \<notin># R" if "h \<in># H1" for h
          using dom [OF a] above [OF that] by blast
        ultimately have sub: "H1 \<subseteq># H"
          by (rule subset_mset_avoid)
        have "size H \<le> k" using szH by simp
        then have "size H \<le> size H1" using szk by simp
        with sub have "H1 = H"
          by (rule mset_subset_size_eq)
        then have "lt a a" using above a by simp
        then show False using swo_irrefl [OF swo] by simp
      qed
    qed
  qed
qed

lemma topk_compose_aux:
  assumes swo: "strict_weak_order lt"
  shows "list_all2 (topk_of lt k) Hs Ms \<Longrightarrow> topk_of lt k H (sum_list Hs + X)
     \<Longrightarrow> topk_of lt k H (sum_list Ms + X)"
proof (induction Hs Ms arbitrary: X rule: list_all2_induct)
  case Nil
  then show ?case by simp
next
  case (Cons H1 Hs M1 Ms)
  have "topk_of lt k H (H1 + (sum_list Hs + X))"
    using Cons.prems by (simp add: add.assoc)
  then have "topk_of lt k H (M1 + (sum_list Hs + X))"
    by (rule topk_replace_part [OF swo _ Cons.hyps(1)])
  then have "topk_of lt k H (sum_list Hs + (M1 + X))"
    by (simp add: ac_simps)
  then have "topk_of lt k H (sum_list Ms + (M1 + X))"
    by (rule Cons.IH)
  then show ?case by (simp add: ac_simps)
qed

lemma topk_compose:
  assumes "strict_weak_order lt" "list_all2 (topk_of lt k) Hs Ms" "topk_of lt k H (sum_list Hs)"
  shows "topk_of lt k H (sum_list Ms)"
  using topk_compose_aux [OF assms(1,2), of H "{#}"] assms(3) by simp

lemma topk_unique_sub:
  assumes sto: "strict_total_order lt"
      and t1: "topk_of lt k H1 M" and t2: "topk_of lt k H2 M"
  shows "H1 \<subseteq># H2"
proof (rule ccontr)
  assume ns: "\<not> H1 \<subseteq># H2"
  then obtain a where a: "count H2 a < count H1 a"
    by (auto simp: subseteq_mset_def not_le)
  have sz: "size H1 = size H2" using t1 t2 by (simp add: topk_of_def)
  have "\<not> H2 \<subseteq># H1"
  proof
    assume "H2 \<subseteq># H1"
    moreover have "size H1 \<le> size H2" using sz by simp
    ultimately have "H2 = H1"
      by (rule mset_subset_size_eq)
    then show False using ns by simp
  qed
  then obtain b where b: "count H1 b < count H2 b"
    by (auto simp: subseteq_mset_def not_le)
  have aH1: "a \<in># H1"
    using a by (intro count_inI) simp
  have bH2: "b \<in># H2"
    using b by (intro count_inI) simp
  have "count H1 a \<le> count M a"
    using t1 by (simp add: topk_of_def mset_subset_eq_count)
  then have "count (M - H2) a \<noteq> 0"
    using a by simp
  then have aR2: "a \<in># M - H2"
    by (intro count_inI) simp
  have "count H2 b \<le> count M b"
    using t2 by (simp add: topk_of_def mset_subset_eq_count)
  then have "count (M - H1) b \<noteq> 0"
    using b by simp
  then have bR1: "b \<in># M - H1"
    by (intro count_inI) simp
  have "\<not> lt a b" using t1 aH1 bR1 by (simp add: topk_of_def)
  moreover have "\<not> lt b a" using t2 bH2 aR2 by (simp add: topk_of_def)
  ultimately have "a = b" using sto by (simp add: strict_total_order_def)
  then show False using a b by simp
qed

lemma topk_unique:
  assumes "strict_total_order lt" "topk_of lt k H1 M" "topk_of lt k H2 M"
  shows "H1 = H2"
  using topk_unique_sub [OF assms] topk_unique_sub [OF assms(1,3,2)]
  by (rule subset_mset.order_antisym)

subsection \<open>The extracted output\<close>

lemma mset_insort_lt [simp]: "mset (insort_lt lt x ys) = add_mset x (mset ys)"
  by (induction ys) simp_all

lemma mset_foldr_insort_lt [simp]: "mset (foldr (insort_lt lt) xs []) = mset xs"
  by (induction xs) simp_all

lemma mset_sorted_py [simp]: "mset (sorted_py lt reverse xs) = mset xs"
  by (simp add: sorted_py_def)

lemma length_sorted_py [simp]: "length (sorted_py lt reverse xs) = length xs"
  using mset_sorted_py [of lt reverse xs] by (metis size_mset)

lemma set_insort_lt [simp]: "set (insort_lt lt x ys) = insert x (set ys)"
  using mset_insort_lt [of lt x ys] by (metis set_mset_add_mset_insert set_mset_mset)

lemma sorted_insort_lt:
  assumes swo: "strict_weak_order lt"
  shows "sorted_wrt (\<lambda>a b. \<not> lt b a) ys \<Longrightarrow> sorted_wrt (\<lambda>a b. \<not> lt b a) (insort_lt lt x ys)"
proof (induction ys)
  case Nil
  show ?case by simp
next
  case (Cons y ys)
  show ?case
  proof (cases "lt y x")
    case True
    have "\<not> lt x y" using swo_asym [OF swo True] .
    then show ?thesis using True Cons by simp
  next
    case False
    have "\<not> lt z x" if "z \<in> set ys" for z
    proof -
      have "\<not> lt z y" using Cons.prems that by simp
      then show ?thesis using swo_le_trans [OF swo False] by blast
    qed
    then show ?thesis using False Cons.prems by auto
  qed
qed

lemma sorted_foldr_insort_lt:
  assumes "strict_weak_order lt"
  shows "sorted_wrt (\<lambda>a b. \<not> lt b a) (foldr (insort_lt lt) xs [])"
  by (induction xs) (simp_all add: sorted_insort_lt [OF assms])

lemma sorted_py_reverse_descending:
  assumes "strict_weak_order lt"
  shows "sorted_wrt (\<lambda>a b. \<not> lt a b) (sorted_py lt True xs)"
  using sorted_foldr_insort_lt [OF assms, of "rev xs"]
  by (simp add: sorted_py_def sorted_wrt_rev)

lemma descending_unique:
  assumes sto: "strict_total_order lt"
  shows "sorted_wrt (\<lambda>a b. \<not> lt a b) xs \<Longrightarrow> sorted_wrt (\<lambda>a b. \<not> lt a b) ys
     \<Longrightarrow> mset xs = mset ys \<Longrightarrow> xs = ys"
proof (induction xs arbitrary: ys)
  case Nil
  then show ?case by simp
next
  case (Cons x xs)
  from Cons.prems(3) obtain y ys' where ys: "ys = y # ys'"
    by (cases ys) auto
  have swo: "strict_weak_order lt" using sto by (simp add: strict_total_order_def)
  have xin: "x \<in> set ys" using Cons.prems(3) by (metis list.set_intros(1) set_mset_mset)
  have yin: "y \<in> set (x # xs)" using Cons.prems(3) ys by (metis list.set_intros(1) set_mset_mset)
  have 1: "\<not> lt y x"
    using xin Cons.prems(2) swo_irrefl [OF swo] unfolding ys by auto
  have 2: "\<not> lt x y"
    using yin Cons.prems(1) swo_irrefl [OF swo] by auto
  have xy: "x = y" using 1 2 sto by (simp add: strict_total_order_def)
  have "xs = ys'"
    using Cons.prems unfolding ys xy by (intro Cons.IH) simp_all
  then show ?case unfolding ys xy by simp
qed

lemma extract_output_determined:
  assumes sto: "strict_total_order lt" and "mset h1 = mset h2"
  shows "TopCombineFn_extract_output lt h1 = TopCombineFn_extract_output lt h2"
proof -
  have swo: "strict_weak_order lt" using sto by (simp add: strict_total_order_def)
  show ?thesis
    unfolding TopCombineFn_extract_output_def
    using sorted_py_reverse_descending [OF swo] assms(2)
    by (intro descending_unique [OF sto]) simp_all
qed

subsection \<open>Reachable accumulators\<close>

text \<open>
  \<open>accumulator_of n lt heap seen\<close>: the accumulator \<open>heap\<close> can arise from the empty
  accumulator by calls of \<open>add_input\<close> and \<open>merge_accumulators\<close>, and \<open>seen\<close> is the
  multiset of the items that went into it.
\<close>

inductive accumulator_of :: "int \<Rightarrow> ('a \<Rightarrow> 'a \<Rightarrow> bool) \<Rightarrow> 'a list \<Rightarrow> 'a multiset \<Rightarrow> bool"
  for n :: int and lt :: "'a \<Rightarrow> 'a \<Rightarrow> bool" where
    created: "accumulator_of n lt TopCombineFn_create_accumulator {#}"
  | added: "accumulator_of n lt heap seen \<Longrightarrow>
      accumulator_of n lt (TopCombineFn_add_input n lt heap element) (add_mset element seen)"
  | merged: "list_all2 (accumulator_of n lt) heaps seens \<Longrightarrow>
      accumulator_of n lt (TopCombineFn_merge_accumulators n lt heaps) (sum_list seens)"

lemma length_add_input:
  "length heap \<le> nat n \<Longrightarrow> length (TopCombineFn_add_input n lt heap x) \<le> nat n"
  by (auto simp: TopCombineFn_add_input_def)

lemma length_foldl_add_input:
  "length heap \<le> nat n \<Longrightarrow> length (foldl (TopCombineFn_add_input n lt) heap xs) \<le> nat n"
  by (induction xs arbitrary: heap) (simp_all add: length_add_input)

lemma length_accumulate: "length (TopCombineFn_accumulate n lt xs) \<le> nat n"
  by (simp add: TopCombineFn_accumulate_def TopCombineFn_create_accumulator_def
      length_foldl_add_input)

lemma accumulator_size_bound:
  "accumulator_of n lt heap seen \<Longrightarrow> length heap \<le> nat n"
  by (induction rule: accumulator_of.induct)
     (simp_all add: TopCombineFn_create_accumulator_def length_add_input merge_as_accumulate
        length_accumulate)

lemma accumulator_topk:
  assumes swo: "strict_weak_order lt"
  shows "accumulator_of n lt heap seen \<Longrightarrow>
     heap_ok lt heap \<and> topk_of lt (nat n) (mset heap) seen"
proof (induction rule: accumulator_of.induct)
  case created
  show ?case
    by (simp add: TopCombineFn_create_accumulator_def heap_ok_Nil topk_of_empty)
next
  case (added heap seen element)
  then show ?case
    using add_input_topk [OF swo, of heap n seen element] by simp
next
  case (merged heaps seens)
  let ?m = "TopCombineFn_accumulate n lt (concat heaps)"
  have parts: "list_all2 (topk_of lt (nat n)) (map mset heaps) seens"
    using merged.IH by (simp add: list_all2_map1 list_all2_mono)
  have m: "heap_ok lt ?m" "topk_of lt (nat n) (mset ?m) (mset (concat heaps))"
    using accumulate_topk [OF swo, of n "concat heaps"] by simp_all
  have "mset (concat heaps) = sum_list (map mset heaps)"
    by (rule mset_concat)
  then have "topk_of lt (nat n) (mset ?m) (sum_list (map mset heaps))"
    using m(2) by simp
  then have "topk_of lt (nat n) (mset ?m) (sum_list seens)"
    by (rule topk_compose [OF swo parts])
  then show ?case
    using m(1) by (simp add: merge_as_accumulate)
qed

lemma accumulate_reachable:
  "accumulator_of n lt (TopCombineFn_accumulate n lt xs) (mset xs)"
proof (induction xs rule: rev_induct)
  case Nil
  show ?case
    using accumulator_of.created [of n lt] by (simp add: TopCombineFn_accumulate_def)
next
  case (snoc x xs)
  show ?case
    using accumulator_of.added [OF snoc, of x] by (simp add: TopCombineFn_accumulate_def)
qed

text \<open>
  Claim C9. After every \<open>add_input\<close> and every \<open>merge_accumulators\<close> the accumulator
  holds at most \<open>n\<close> items, for every comparator; \<open>extract_output\<close> returns the items of
  the accumulator, so at most \<open>n\<close> of them. If the comparator is a strict weak order, the
  accumulator holds \<open>n\<close> greatest of the items seen so far (all of them when fewer than
  \<open>n\<close> were seen), and \<open>extract_output\<close> lists them from greatest to least.
\<close>

theorem TopCombineFn_keeps_greatest:
  assumes "accumulator_of n lt heap seen"
  shows "length heap \<le> nat n
       \<and> length (TopCombineFn_extract_output lt heap) = length heap
       \<and> mset (TopCombineFn_extract_output lt heap) = mset heap
       \<and> (strict_weak_order lt \<longrightarrow>
             topk_of lt (nat n) (mset heap) seen
           \<and> sorted_wrt (\<lambda>a b. \<not> lt a b) (TopCombineFn_extract_output lt heap))"
  using accumulator_size_bound [OF assms] accumulator_topk [OF _ assms]
    sorted_py_reverse_descending [of lt heap]
  by (simp add: TopCombineFn_extract_output_def)

text \<open>
  Claim C3. For a strict total order as comparator and every split of a stream into
  partial streams, merging the accumulators of the partial streams yields the same
  extracted output as accumulating the whole stream sequentially.
\<close>

theorem TopCombineFn_merge_equals_sequential:
  assumes sto: "strict_total_order lt"
  shows "TopCombineFn_extract_output lt
           (TopCombineFn_merge_accumulators n lt (map (TopCombineFn_accumulate n lt) parts))
       = TopCombineFn_extract_output lt (TopCombineFn_accumulate n lt (concat parts))"
proof -
  have swo: "strict_weak_order lt" using sto by (simp add: strict_total_order_def)
  let ?heaps = "map (TopCombineFn_accumulate n lt) parts"
  let ?m = "TopCombineFn_merge_accumulators n lt ?heaps"
  let ?s = "TopCombineFn_accumulate n lt (concat parts)"
  have each: "list_all2 (accumulator_of n lt) ?heaps (map mset parts)"
    by (simp add: list_all2_map1 list_all2_map2 list_all2_same accumulate_reachable)
  have "accumulator_of n lt ?m (sum_list (map mset parts))"
    using each by (rule accumulator_of.merged)
  then have "topk_of lt (nat n) (mset ?m) (sum_list (map mset parts))"
    using accumulator_topk [OF swo] by blast
  then have 1: "topk_of lt (nat n) (mset ?m) (mset (concat parts))"
    by (simp add: mset_concat)
  have 2: "topk_of lt (nat n) (mset ?s) (mset (concat parts))"
    using accumulate_topk [OF swo, of n "concat parts"] by simp
  have "mset ?m = mset ?s"
    using sto 1 2 by (rule topk_unique)
  with sto show ?thesis
    by (rule extract_output_determined)
qed

subsection \<open>The example of the specification\<close>

lemma int_less_strict_total_order: "strict_total_order ((<) :: int \<Rightarrow> int \<Rightarrow> bool)"
  by (auto simp: strict_total_order_def strict_weak_order_def)

theorem TopCombineFn_merge_equals_sequential_witness:
  "TopCombineFn_extract_output (<)
       (TopCombineFn_merge_accumulators 2 (<)
          [TopCombineFn_accumulate 2 (<) [5, 1], TopCombineFn_accumulate 2 (<) [9, 3 :: int]])
     = TopCombineFn_extract_output (<) (TopCombineFn_accumulate 2 (<) [5, 1, 9, 3])
   \<and> TopCombineFn_extract_output (<) (TopCombineFn_accumulate 2 (<) [5, 1, 9, 3 :: int]) = [9, 5]"
proof (rule conjI)
  show "TopCombineFn_extract_output (<)
       (TopCombineFn_merge_accumulators 2 (<)
          [TopCombineFn_accumulate 2 (<) [5, 1], TopCombineFn_accumulate 2 (<) [9, 3 :: int]])
     = TopCombineFn_extract_output (<) (TopCombineFn_accumulate 2 (<) [5, 1, 9, 3])"
    using TopCombineFn_merge_equals_sequential [OF int_less_strict_total_order, of 2 "[[5, 1], [9, 3]]"]
    by simp
  show "TopCombineFn_extract_output (<) (TopCombineFn_accumulate 2 (<) [5, 1, 9, 3 :: int]) = [9, 5]"
    by code_simp
qed

theorem TopCombineFn_keeps_greatest_witness:
  "length (TopCombineFn_accumulate 2 (<) [5, 1, 9 :: int]) \<le> nat 2
   \<and> topk_of (<) (nat 2) (mset (TopCombineFn_accumulate 2 (<) [5, 1, 9 :: int])) {#5, 1, 9#}
   \<and> sorted_wrt (\<lambda>a b. \<not> a < b)
         (TopCombineFn_extract_output (<) (TopCombineFn_accumulate 2 (<) [5, 1, 9 :: int]))
   \<and> TopCombineFn_extract_output (<) (TopCombineFn_accumulate 2 (<) [5, 1, 9 :: int]) = [9, 5]"
proof -
  have swo: "strict_weak_order ((<) :: int \<Rightarrow> int \<Rightarrow> bool)"
    using int_less_strict_total_order by (simp add: strict_total_order_def)
  have r: "accumulator_of 2 (<) (TopCombineFn_accumulate 2 (<) [5, 1, 9 :: int]) {#5, 1, 9#}"
    using accumulate_reachable [of 2 "(<)" "[5, 1, 9 :: int]"] by simp
  note t = TopCombineFn_keeps_greatest [OF r]
  have e: "TopCombineFn_extract_output (<) (TopCombineFn_accumulate 2 (<) [5, 1, 9 :: int]) = [9, 5]"
    by code_simp
  show ?thesis
    using t swo e by simp
qed

end
